theory Spec2Isabelle
  imports Complex_Main "HOL-Library.Word" "HOL-Library.Signed_Division" "HOL-Library.Multiset"
begin

unbundle bit_operations_syntax

section \<open>Machine integers and failures\<close>

text \<open>
  The engine (gp.h, gp.cpp) works on C++ \<open>int\<close> (32 bit, two's complement) and
  \<open>size_t\<close> (64 bit, unsigned).  Values computed by evolved programs are \<open>32 word\<close>.
  Counts and positions are \<open>nat\<close>; where the source subtracts, negates or adds in
  \<open>size_t\<close> the wrap-around modulo \<open>2 ^ 64\<close> is written out, and where it passes a
  \<open>size_t\<close> to an \<open>int\<close> parameter the narrowing conversion is \<open>size_to_int\<close>.

  Two ways of not returning a value are kept apart: an \<open>assert\<close> of the source that
  fires, and an operation the C++ standard leaves undefined (an unchecked vector
  access out of range, a distribution over an empty range).
\<close>

datatype error = AssertionFailed | UndefinedBehaviour

type_synonym Value = "32 word"

definition size_wrap :: "int \<Rightarrow> nat" where
  "size_wrap k = nat (k mod 2 ^ 64)"

definition size_to_int :: "nat \<Rightarrow> int" where
  "size_to_int n = signed_take_bit 31 (int n)"

definition size_dec :: "nat \<Rightarrow> nat" where
  "size_dec n = size_wrap (int n - 1)"

definition size_neg :: "nat \<Rightarrow> nat" where
  "size_neg n = size_wrap (- int n)"

definition size_add :: "nat \<Rightarrow> nat \<Rightarrow> nat" where
  "size_add a b = (a + b) mod 2 ^ 64"

text \<open>\<open>printf\<close>'s \<open>%zu\<close>: the decimal digits of a \<open>size_t\<close>.\<close>

fun show_nat :: "nat \<Rightarrow> string" where
  "show_nat n =
     (if n < 10 then [''0123456789'' ! n]
      else show_nat (n div 10) @ [''0123456789'' ! (n mod 10)])"

declare show_nat.simps [simp del]

section \<open>Random\<close>

text \<open>
  \<open>struct Random\<close> wraps \<open>std::mt19937\<close> and \<open>std::uniform_int_distribution\<close>, which
  are not part of the repository.  The generator state is modelled as an arbitrary
  infinite sequence of raw draws and a read position; \<open>get(min, max)\<close> maps the next
  raw draw into the closed range.  Every sequence of results a real generator can
  produce is produced by some such state.  A range with \<open>max < min\<close> violates the
  precondition of the distribution, which is undefined behaviour.
\<close>

record Random =
  draws :: "nat \<Rightarrow> nat"
  pos :: nat

definition Random_get :: "Random \<Rightarrow> int \<Rightarrow> int \<Rightarrow> error + (int \<times> Random)" where
  "Random_get rnd lo hi =
     (if hi < lo then Inl UndefinedBehaviour
      else Inr (lo + int (draws rnd (pos rnd) mod nat (hi - lo + 1)),
                rnd\<lparr>pos := Suc (pos rnd)\<rparr>))"

section \<open>Weakness, results and the multi-function interface\<close>

text \<open>
  \<open>Weakness\<close> is a C++ \<open>double\<close>.  The engine never computes with it, it only
  compares with \<open>!=\<close> and \<open><\<close>; those comparisons are modelled on the values a
  double denotes: not-a-number, the two infinities and the finite reals.
\<close>

datatype Weakness = NaN | NegInf | Fin real | PosInf

fun weakness_less :: "Weakness \<Rightarrow> Weakness \<Rightarrow> bool" where
  "weakness_less NaN _ = False"
| "weakness_less _ NaN = False"
| "weakness_less NegInf NegInf = False"
| "weakness_less NegInf _ = True"
| "weakness_less (Fin x) (Fin y) = (x < y)"
| "weakness_less (Fin x) PosInf = True"
| "weakness_less (Fin x) NegInf = False"
| "weakness_less PosInf _ = False"

fun weakness_neq :: "Weakness \<Rightarrow> Weakness \<Rightarrow> bool" where
  "weakness_neq NaN _ = True"
| "weakness_neq _ NaN = True"
| "weakness_neq a b = (a \<noteq> b)"

type_synonym Input = "Value list"
type_synonym Output = "Value list"
type_synonym Result = "Output list"
type_synonym Feedback = "Weakness list"

text \<open>
  \<open>struct MultiFunction\<close>: the four virtual members through which the fitness hook
  sees an individual.
\<close>

record MultiFunction =
  mf_num_inputs :: nat
  mf_num_outputs :: nat
  mf_num_alternatives :: nat
  mf_execute :: "Input \<Rightarrow> error + Result"

section \<open>OpRepo\<close>

record Entry =
  entry_name :: string
  entry_fun :: "Value \<Rightarrow> Value \<Rightarrow> Value"
  entry_cost :: nat

record OpRepo =
  find_weakness_hook :: "MultiFunction \<Rightarrow> Feedback"
  entries :: "Entry list"

definition forward_op :: "Value \<Rightarrow> Value \<Rightarrow> Value" where
  "forward_op l r = l"

definition OpRepo_new :: "(MultiFunction \<Rightarrow> Feedback) \<Rightarrow> OpRepo" where
  "OpRepo_new find_weakness_in =
     \<lparr>find_weakness_hook = find_weakness_in,
      entries = [\<lparr>entry_name = ''forward'', entry_fun = forward_op, entry_cost = 0\<rparr>]\<rparr>"

definition OpRepo_add :: "string \<Rightarrow> (Value \<Rightarrow> Value \<Rightarrow> Value) \<Rightarrow> OpRepo \<Rightarrow> OpRepo" where
  "OpRepo_add nm f r =
     r\<lparr>entries := entries r @ [\<lparr>entry_name = nm, entry_fun = f, entry_cost = 1\<rparr>]\<rparr>"

text \<open>
  The lookups index \<open>_list\<close> with \<open>operator[]\<close>, which is unchecked: the source has
  no assertion here, and an index past the end is undefined behaviour.
\<close>

definition name_of :: "OpRepo \<Rightarrow> nat \<Rightarrow> error + string" where
  "name_of r op =
     (if op < length (entries r) then Inr (entry_name (entries r ! op))
      else Inl UndefinedBehaviour)"

definition cost_of :: "OpRepo \<Rightarrow> nat \<Rightarrow> error + nat" where
  "cost_of r op =
     (if op < length (entries r) then Inr (entry_cost (entries r ! op))
      else Inl UndefinedBehaviour)"

definition max_op :: "OpRepo \<Rightarrow> nat" where
  "max_op r = size_dec (length (entries r))"

definition perform :: "OpRepo \<Rightarrow> nat \<Rightarrow> Value \<Rightarrow> Value \<Rightarrow> error + Value" where
  "perform r op l rr =
     (if op < length (entries r) then Inr (entry_fun (entries r ! op) l rr)
      else Inl UndefinedBehaviour)"

section \<open>Program\<close>

text \<open>\<open>class Ref\<close>: one \<open>int\<close>; negative for an input, zero or positive for an operation.\<close>

datatype Ref = Ref (idx: int)

definition is_input :: "Ref \<Rightarrow> bool" where
  "is_input r = (idx r < 0)"

definition is_operation :: "Ref \<Rightarrow> bool" where
  "is_operation r = (idx r \<ge> 0)"

definition in_idx :: "Ref \<Rightarrow> nat" where
  "in_idx r = size_wrap (- (idx r + 1))"

definition op_idx :: "Ref \<Rightarrow> nat" where
  "op_idx r = size_wrap (idx r)"

text \<open>
  \<open>Ref::in\<close> computes \<open>-int(idx_in + 1)\<close>: the sum is a \<open>size_t\<close>, narrowed to \<open>int\<close> and
  negated as an \<open>int\<close>.  Only the negation of the most negative \<open>int\<close> overflows; C++
  leaves that undefined, and the model takes the two's complement result.
\<close>

definition Ref_in :: "nat \<Rightarrow> Ref" where
  "Ref_in idx_in = Ref (signed_take_bit 31 (- size_to_int (size_add idx_in 1)))"

definition Ref_op :: "nat \<Rightarrow> Ref" where
  "Ref_op idx_in = Ref (size_to_int idx_in)"

definition Ref_nop :: Ref where
  "Ref_nop = Ref_in 0"

definition Ref_rnd :: "Random \<Rightarrow> nat \<Rightarrow> nat \<Rightarrow> error + (Ref \<times> Random)" where
  "Ref_rnd rnd_in n_in n_op =
     (case Random_get rnd_in (size_to_int (size_neg n_in)) (size_to_int (size_dec n_op)) of
        Inl e \<Rightarrow> Inl e
      | Inr (v, rnd') \<Rightarrow> Inr (Ref v, rnd'))"

record Op =
  code :: nat
  lhs :: Ref
  rhs :: Ref

record Stats =
  weakness :: Weakness
  cost :: nat
  born :: nat

definition Stats_new :: "nat \<Rightarrow> Stats" where
  "Stats_new g = \<lparr>weakness = Fin 0, cost = 0, born = g\<rparr>"

text \<open>\<open>Stats::operator<\<close>.\<close>

definition Stats_less :: "Stats \<Rightarrow> Stats \<Rightarrow> bool" where
  "Stats_less a b =
     (if weakness_neq (weakness a) (weakness b) then weakness_less (weakness a) (weakness b)
      else if cost a \<noteq> cost b then cost a < cost b
      else born a > born b)"

record Program =
  prog_repo :: OpRepo
  prog_stats :: Stats
  prog_in_cnt :: nat
  prog_out_cnt :: nat
  prog_ops :: "Op list"
  best_slot :: nat

definition Program_new :: "OpRepo \<Rightarrow> nat \<Rightarrow> nat \<Rightarrow> nat \<Rightarrow> Program" where
  "Program_new r n_in n_out g =
     \<lparr>prog_repo = r, prog_stats = Stats_new g, prog_in_cnt = n_in, prog_out_cnt = n_out,
      prog_ops = [], best_slot = 0\<rparr>"

definition assert_valid :: "Program \<Rightarrow> Ref \<Rightarrow> nat \<Rightarrow> error + unit" where
  "assert_valid p r limit =
     (if is_input r = is_operation r then Inl AssertionFailed
      else if is_input r \<and> \<not> in_idx r < prog_in_cnt p then Inl AssertionFailed
      else if is_operation r \<and> \<not> op_idx r < limit then Inl AssertionFailed
      else Inr ())"

definition add_op :: "Program \<Rightarrow> nat \<Rightarrow> Ref \<Rightarrow> Ref \<Rightarrow> error + (Ref \<times> Program)" where
  "add_op p c l r =
     (let n = length (prog_ops p) in
      if \<not> c \<le> max_op (prog_repo p) then Inl AssertionFailed
      else (case assert_valid p l n of
              Inl e \<Rightarrow> Inl e
            | Inr _ \<Rightarrow>
               (case assert_valid p r n of
                  Inl e \<Rightarrow> Inl e
                | Inr _ \<Rightarrow>
                    Inr (Ref_op n,
                         p\<lparr>prog_ops := prog_ops p @ [\<lparr>code = c, lhs = l, rhs = r\<rparr>]\<rparr>))))"

definition add_forward :: "Program \<Rightarrow> Ref \<Rightarrow> error + (Ref \<times> Program)" where
  "add_forward p r = add_op p 0 r Ref_nop"

text \<open>The two file-local \<open>get\<close> helpers of gp.cpp; both index their vector unchecked.\<close>

definition get_value :: "Input \<Rightarrow> Value list \<Rightarrow> Ref \<Rightarrow> error + Value" where
  "get_value input vals r =
     (if is_input r
      then (if in_idx r < length input then Inr (input ! in_idx r) else Inl UndefinedBehaviour)
      else (if op_idx r < length vals then Inr (vals ! op_idx r) else Inl UndefinedBehaviour))"

definition get_size :: "nat list \<Rightarrow> Ref \<Rightarrow> error + nat" where
  "get_size sizes r =
     (if is_input r then Inr 1
      else if op_idx r < length sizes then Inr (sizes ! op_idx r)
      else Inl UndefinedBehaviour)"

text \<open>
  \<open>Program::size_of\<close>.  The loop visits \<open>_program[0 .. ref.op_idx()]\<close> in order and
  appends one entry to \<open>sizes\<close> per operation; the sums are \<open>size_t\<close> sums.
\<close>

fun size_loop :: "Op list \<Rightarrow> nat list \<Rightarrow> error + nat list" where
  "size_loop [] sizes = Inr sizes"
| "size_loop (op # ops) sizes =
     (case get_size sizes (lhs op) of
        Inl e \<Rightarrow> Inl e
      | Inr l \<Rightarrow>
         (if code op = 0 then size_loop ops (sizes @ [l])
          else (case get_size sizes (rhs op) of
                  Inl e \<Rightarrow> Inl e
                | Inr r \<Rightarrow> size_loop ops (sizes @ [size_add (size_add 1 l) r]))))"

definition size_of :: "Program \<Rightarrow> Ref \<Rightarrow> error + nat" where
  "size_of p r =
     (case assert_valid p r (length (prog_ops p)) of
        Inl e \<Rightarrow> Inl e
      | Inr _ \<Rightarrow>
         (if is_input r then Inr 1
          else (case size_loop (take (Suc (op_idx r)) (prog_ops p)) [] of
                  Inl e \<Rightarrow> Inl e
                | Inr sizes \<Rightarrow> Inr (last sizes))))"

text \<open>
  \<open>Program::as_string\<close> recurses into the operands of the referenced operation.
  Nothing in the function itself bounds the recursion (it relies on operands
  referring to earlier operations), so it is a partial function: \<open>None\<close> is a call
  that does not return.
\<close>

partial_function (option) as_string :: "Program \<Rightarrow> Ref \<Rightarrow> (error + string) option" where
  "as_string p r =
     (case assert_valid p r (length (prog_ops p)) of
        Inl e \<Rightarrow> Some (Inl e)
      | Inr _ \<Rightarrow>
         (case size_of p r of
            Inl e \<Rightarrow> Some (Inl e)
          | Inr expr_size \<Rightarrow>
             (if expr_size > 9000 then Some (Inr (''expr('' @ show_nat expr_size @ '' nodes)''))
              else if is_input r then Some (Inr (''i'' @ show_nat (in_idx r)))
              else (let my_op = prog_ops p ! op_idx r in
                if code my_op = 0 then as_string p (lhs my_op)
                else (case name_of (prog_repo p) (code my_op) of
                        Inl e \<Rightarrow> Some (Inl e)
                      | Inr nm \<Rightarrow>
                          Option.bind (as_string p (lhs my_op)) (\<lambda>ls.
                            (case ls of
                               Inl e \<Rightarrow> Some (Inl e)
                             | Inr l \<Rightarrow>
                                 Option.bind (as_string p (rhs my_op)) (\<lambda>rs.
                                   (case rs of
                                      Inl e \<Rightarrow> Some (Inl e)
                                    | Inr rr \<Rightarrow>
                                        Some (Inr (nm @ ''('' @ l @ '','' @ rr @ '')'')))))))))))"


text \<open>
  \<open>rnd_op\<close> and \<open>rnd_ref\<close>.  The \<open>int\<close> drawn by \<open>Random::get\<close> is converted back to
  \<open>size_t\<close> where the source stores it in one.
\<close>

definition rnd_op :: "Program \<Rightarrow> Random \<Rightarrow> error + (nat \<times> Random)" where
  "rnd_op p rnd =
     (case Random_get rnd 0 (size_to_int (max_op (prog_repo p))) of
        Inl e \<Rightarrow> Inl e
      | Inr (v, rnd') \<Rightarrow> Inr (size_wrap v, rnd'))"

definition rnd_ref :: "Program \<Rightarrow> Random \<Rightarrow> nat \<Rightarrow> error + (Ref \<times> Random)" where
  "rnd_ref p rnd limit = Ref_rnd rnd (prog_in_cnt p) limit"




text \<open>
  \<open>Program::mutate\<close>.  \<open>Op &op = _program[mut_idx]\<close> is an unchecked access.
\<close>

definition mutate :: "Program \<Rightarrow> Random \<Rightarrow> error + (Program \<times> Random)" where
  "mutate p rnd =
     (case Random_get rnd 0 (size_to_int (size_dec (length (prog_ops p)))) of
        Inl e \<Rightarrow> Inl e
      | Inr (v, rnd1) \<Rightarrow>
         (let mut_idx = size_wrap v in
          if \<not> mut_idx < length (prog_ops p) then Inl UndefinedBehaviour
          else (let op = prog_ops p ! mut_idx in
            case Random_get rnd1 0 2 of
              Inl e \<Rightarrow> Inl e
            | Inr (s, rnd2) \<Rightarrow>
               (let sel = size_wrap s in
                if sel = 0 then
                  (case rnd_op p rnd2 of
                     Inl e \<Rightarrow> Inl e
                   | Inr (c, rnd3) \<Rightarrow>
                       Inr (p\<lparr>prog_ops := (prog_ops p)[mut_idx := op\<lparr>code := c\<rparr>]\<rparr>, rnd3))
                else if sel = 1 then
                  (case rnd_ref p rnd2 mut_idx of
                     Inl e \<Rightarrow> Inl e
                   | Inr (l, rnd3) \<Rightarrow>
                       Inr (p\<lparr>prog_ops := (prog_ops p)[mut_idx := op\<lparr>lhs := l\<rparr>]\<rparr>, rnd3))
                else if \<not> sel = 2 then Inl AssertionFailed
                else
                  (case rnd_ref p rnd2 mut_idx of
                     Inl e \<Rightarrow> Inl e
                   | Inr (r, rnd3) \<Rightarrow>
                       Inr (p\<lparr>prog_ops := (prog_ops p)[mut_idx := op\<lparr>rhs := r\<rparr>]\<rparr>, rnd3))))))"

definition reborn :: "Program \<Rightarrow> nat \<Rightarrow> Program" where
  "reborn p g = p\<lparr>prog_stats := (prog_stats p)\<lparr>born := g\<rparr>\<rparr>"

text \<open>\<open>Program::operator<\<close>.\<close>

definition Program_less :: "Program \<Rightarrow> Program \<Rightarrow> bool" where
  "Program_less a b = Stats_less (prog_stats a) (prog_stats b)"

text \<open>
  \<open>Program::get_cost\<close>.  The \<open>todo\<close> vector is used as a stack; the list holds it
  top first (the head of the list is \<open>todo.back()\<close>).
\<close>

definition undone :: "bool list \<Rightarrow> nat" where
  "undone done = length (filter (\<lambda>b. \<not> b) done)"

lemma undone_update:
  "i < length ds \<Longrightarrow> \<not> ds ! i \<Longrightarrow> undone (ds[i := True]) < undone ds"
proof (induction ds arbitrary: i)
  case Nil
  then show ?case by simp
next
  case (Cons b bs)
  then show ?case by (cases i) (auto simp: undone_def)
qed

function cost_loop :: "Program \<Rightarrow> Ref list \<Rightarrow> bool list \<Rightarrow> nat \<Rightarrow> error + nat" where
  "cost_loop p [] done acc = Inr acc"
| "cost_loop p (r # todo) done acc =
     (if is_operation r then
        (if \<not> op_idx r < length done then Inl UndefinedBehaviour
         else if \<not> done ! op_idx r then
           (if \<not> op_idx r < length (prog_ops p) then Inl UndefinedBehaviour
            else (let op = prog_ops p ! op_idx r in
              case cost_of (prog_repo p) (code op) of
                Inl e \<Rightarrow> Inl e
              | Inr c \<Rightarrow>
                  cost_loop p
                    ((if code op > 0 then [rhs op] else []) @ lhs op # todo)
                    (done[op_idx r := True])
                    (size_add acc c)))
         else cost_loop p todo done acc)
      else cost_loop p todo done acc)"
  by pat_completeness auto
termination
  by (relation "measure (\<lambda>(p, todo, done, acc). 2 * undone done + length todo)")
     (auto dest: undone_update)

definition get_cost :: "Program \<Rightarrow> nat \<Rightarrow> error + nat" where
  "get_cost p slot =
     (let offset = size_wrap (int slot * int (prog_out_cnt p)) in
      if \<not> size_add offset (prog_out_cnt p) \<le> length (prog_ops p) then Inl AssertionFailed
      else cost_loop p
             (rev (map (\<lambda>i. Ref_op (size_add offset i)) [0..<prog_out_cnt p]))
             (replicate (length (prog_ops p)) False)
             0)"

text \<open>The \<open>MultiFunction\<close> members of \<open>Program\<close>.\<close>

definition num_inputs :: "Program \<Rightarrow> nat" where
  "num_inputs p = prog_in_cnt p"

definition num_outputs :: "Program \<Rightarrow> nat" where
  "num_outputs p = prog_out_cnt p"

definition num_alternatives :: "Program \<Rightarrow> nat" where
  "num_alternatives p = 1"

text \<open>
  \<open>Program::execute\<close>.  The loop state is \<open>(result, out, values)\<close>; vectors are lists
  in index order and \<open>push_back\<close> appends.
\<close>

fun execute_loop ::
  "Program \<Rightarrow> Input \<Rightarrow> Op list \<Rightarrow> Result \<times> Output \<times> Value list \<Rightarrow>
   error + (Result \<times> Output \<times> Value list)" where
  "execute_loop p input [] st = Inr st"
| "execute_loop p input (op # ops) (result, out, vals) =
     (case get_value input vals (lhs op) of
        Inl e \<Rightarrow> Inl e
      | Inr l \<Rightarrow>
         (case get_value input vals (rhs op) of
            Inl e \<Rightarrow> Inl e
          | Inr r \<Rightarrow>
             (case perform (prog_repo p) (code op) l r of
                Inl e \<Rightarrow> Inl e
              | Inr v \<Rightarrow>
                 (let vals' = vals @ [v]; out' = out @ [v] in
                  if length out' = prog_out_cnt p then
                    execute_loop p input ops
                      (if length vals' = length (prog_ops p) then result @ [out'] else result,
                       [], vals')
                  else execute_loop p input ops (result, out', vals')))))"

definition execute :: "Program \<Rightarrow> Input \<Rightarrow> error + Result" where
  "execute p input =
     (case execute_loop p input (prog_ops p) ([], [], []) of
        Inl e \<Rightarrow> Inl e
      | Inr (result, out, vals) \<Rightarrow> Inr result)"

definition as_multi_function :: "Program \<Rightarrow> MultiFunction" where
  "as_multi_function p =
     \<lparr>mf_num_inputs = num_inputs p, mf_num_outputs = num_outputs p,
      mf_num_alternatives = num_alternatives p, mf_execute = execute p\<rparr>"

text \<open>\<open>Program::handle_feedback\<close>, with the loop of its second branch.\<close>

fun feedback_loop :: "Program \<Rightarrow> Feedback \<Rightarrow> nat list \<Rightarrow> error + Program" where
  "feedback_loop p feedback [] = Inr p"
| "feedback_loop p feedback (i # is) =
     (case get_cost p i of
        Inl e \<Rightarrow> Inl e
      | Inr c \<Rightarrow>
         (let st = \<lparr>weakness = feedback ! i, cost = c, born = born (prog_stats p)\<rparr> in
          if Stats_less st (prog_stats p)
          then feedback_loop (p\<lparr>prog_stats := st, best_slot := i\<rparr>) feedback is
          else feedback_loop p feedback is))"

definition handle_feedback :: "Program \<Rightarrow> Feedback \<Rightarrow> error + Program" where
  "handle_feedback p feedback =
     (if \<not> length feedback = num_alternatives p then Inl AssertionFailed
      else if num_alternatives p = 1 then
        (if prog_out_cnt p = 0 then Inl UndefinedBehaviour
         else (let slot = size_wrap (int (length (prog_ops p)) - int (prog_out_cnt p))
                            div prog_out_cnt p in
           case get_cost p slot of
             Inl e \<Rightarrow> Inl e
           | Inr c \<Rightarrow>
               Inr (p\<lparr>best_slot := slot,
                      prog_stats := \<lparr>weakness = feedback ! 0, cost = c,
                                     born = born (prog_stats p)\<rparr>\<rparr>)))
      else
        (case get_cost p 0 of
           Inl e \<Rightarrow> Inl e
         | Inr c \<Rightarrow>
             feedback_loop
               (p\<lparr>prog_stats := \<lparr>weakness = feedback ! 0, cost = c,
                                  born = born (prog_stats p)\<rparr>,
                  best_slot := 0\<rparr>)
               feedback [1..<length feedback]))"

text \<open>\<open>OpRepo::find_weakness\<close>: the hook sees the individual as a \<open>MultiFunction\<close>.\<close>

definition find_weakness :: "OpRepo \<Rightarrow> Program \<Rightarrow> error + Program" where
  "find_weakness r sim = handle_feedback sim (find_weakness_hook r (as_multi_function sim))"

section \<open>Population\<close>

record Params =
  in_cnt :: nat
  out_cnt :: nat
  op_cnt :: nat
  pop_cnt :: nat

record Population =
  pop_rnd :: Random
  pop_gen :: nat
  pop_params :: Params
  pop_repo :: OpRepo
  pop_programs :: "Program list"

text \<open>
  \<open>std::sort\<close> is a library routine.  C++ leaves its behaviour undefined unless the
  comparison is a strict weak ordering on the elements of the range.
  \<open>Program::operator<\<close> is irreflexive and transitive on all programs; what can fail
  is that ``neither is less than the other'' is transitive, and it fails exactly
  when a program with a not-a-number weakness stands beside two programs of which
  one is less than the other.  \<open>strict_weak_on\<close> checks that precondition on the
  elements of the range.  Where it holds, the result of the routine is an ordered
  permutation of the range; it is computed here by insertion.  The order among
  equivalent programs is not fixed by C++, and no statement below depends on it.
\<close>

definition equivalent :: "Program \<Rightarrow> Program \<Rightarrow> bool" where
  "equivalent a b = (\<not> Program_less a b \<and> \<not> Program_less b a)"

definition strict_weak_on :: "Program list \<Rightarrow> bool" where
  "strict_weak_on ps =
     list_all (\<lambda>a. list_all (\<lambda>b. list_all (\<lambda>c.
       if equivalent a b \<and> equivalent b c then equivalent a c else True) ps) ps) ps"

fun sort_insert :: "Program \<Rightarrow> Program list \<Rightarrow> Program list" where
  "sort_insert x [] = [x]"
| "sort_insert x (y # ys) =
     (if Program_less x y then x # y # ys else y # sort_insert x ys)"

fun insertion_sort :: "Program list \<Rightarrow> Program list" where
  "insertion_sort [] = []"
| "insertion_sort (x # xs) = sort_insert x (insertion_sort xs)"

definition std_sort :: "Program list \<Rightarrow> error + Program list" where
  "std_sort ps =
     (if strict_weak_on ps then Inr (insertion_sort ps) else Inl UndefinedBehaviour)"





text \<open>
  \<open>Population::select\<close>: the index expression
  \<open>std::min(_rnd.get(0, limit - 1), _rnd.get(0, limit - 1))\<close>, and the unchecked
  access \<open>_programs[...]\<close>.
\<close>

definition select_index :: "Random \<Rightarrow> nat \<Rightarrow> error + (nat \<times> Random)" where
  "select_index rnd limit =
     (case Random_get rnd 0 (size_to_int (size_dec limit)) of
        Inl e \<Rightarrow> Inl e
      | Inr (a, rnd1) \<Rightarrow>
         (case Random_get rnd1 0 (size_to_int (size_dec limit)) of
            Inl e \<Rightarrow> Inl e
          | Inr (b, rnd2) \<Rightarrow> Inr (size_wrap (min a b), rnd2)))"

definition select :: "Program list \<Rightarrow> Random \<Rightarrow> nat \<Rightarrow> error + (Program \<times> Random)" where
  "select programs rnd limit =
     (case select_index rnd limit of
        Inl e \<Rightarrow> Inl e
      | Inr (i, rnd') \<Rightarrow>
          if i < length programs then Inr (programs ! i, rnd')
          else Inl UndefinedBehaviour)"

text \<open>
  \<open>Population::mutate\<close>.  The \<open>do ... while (_rnd.get(0,99) < 66)\<close> loop ends only
  when a draw is 66 or more, so it is a partial function.
\<close>

partial_function (option) mutate_loop ::
  "Program \<Rightarrow> Random \<Rightarrow> (error + (Program \<times> Random)) option" where
  "mutate_loop new_prog rnd =
     (case mutate new_prog rnd of
        Inl e \<Rightarrow> Some (Inl e)
      | Inr (p1, rnd1) \<Rightarrow>
         (case Random_get rnd1 0 99 of
            Inl e \<Rightarrow> Some (Inl e)
          | Inr (v, rnd2) \<Rightarrow>
              if v < 66 then mutate_loop p1 rnd2 else Some (Inr (p1, rnd2))))"

definition mutate_individual ::
  "nat \<Rightarrow> Random \<Rightarrow> Program \<Rightarrow> (error + (Program \<times> Random)) option" where
  "mutate_individual g rnd a =
     (case mutate_loop a rnd of
        None \<Rightarrow> None
      | Some (Inl e) \<Rightarrow> Some (Inl e)
      | Some (Inr (new_prog, rnd')) \<Rightarrow> Some (Inr (reborn new_prog g, rnd')))"

text \<open>\<open>Population::tick\<close> and its two loops.\<close>

function truncate_loop :: "Program list \<Rightarrow> nat \<Rightarrow> Program list" where
  "truncate_loop programs apex_cnt =
     (if length programs > apex_cnt then truncate_loop (butlast programs) apex_cnt
      else programs)"
  by pat_completeness auto
termination
  by (relation "measure (\<lambda>(programs, apex_cnt). length programs)") auto

declare truncate_loop.simps [simp del]

function repopulate_loop :: "Population \<Rightarrow> nat \<Rightarrow> (error + Population) option" where
  "repopulate_loop pop apex_cnt =
     (if length (pop_programs pop) < pop_cnt (pop_params pop) then
        (case select (pop_programs pop) (pop_rnd pop) apex_cnt of
           Inl e \<Rightarrow> Some (Inl e)
         | Inr (a, rnd1) \<Rightarrow>
            (case mutate_individual (pop_gen pop) rnd1 a of
               None \<Rightarrow> None
             | Some (Inl e) \<Rightarrow> Some (Inl e)
             | Some (Inr (new_prog, rnd2)) \<Rightarrow>
                (case find_weakness (pop_repo pop) new_prog of
                   Inl e \<Rightarrow> Some (Inl e)
                 | Inr p' \<Rightarrow>
                     repopulate_loop
                       (pop\<lparr>pop_rnd := rnd2, pop_programs := pop_programs pop @ [p']\<rparr>)
                       apex_cnt)))
      else Some (Inr pop))"
  by pat_completeness auto
termination
  by (relation "measure (\<lambda>(pop, apex_cnt). pop_cnt (pop_params pop) - length (pop_programs pop))")
     auto

declare repopulate_loop.simps [simp del]

definition tick :: "Population \<Rightarrow> (error + Population) option" where
  "tick pop =
     (let pop1 = pop\<lparr>pop_gen := size_add (pop_gen pop) 1\<rparr>;
          apex_cnt = pop_cnt (pop_params pop1) div 10;
          pop2 = pop1\<lparr>pop_programs := truncate_loop (pop_programs pop1) apex_cnt\<rparr>
      in case repopulate_loop pop2 apex_cnt of
           None \<Rightarrow> None
         | Some (Inl e) \<Rightarrow> Some (Inl e)
         | Some (Inr pop3) \<Rightarrow>
            (case std_sort (pop_programs pop3) of
               Inl e \<Rightarrow> Some (Inl e)
             | Inr sorted_programs \<Rightarrow>
                 Some (Inr (pop3\<lparr>pop_programs := sorted_programs\<rparr>))))"

section \<open>The operation catalog of the ponder\_nov2017 test\<close>

text \<open>
  \<open>my_repo()\<close> of ponder\_nov2017.cpp.  The arithmetic of \<open>int\<close> is modelled on
  \<open>32 word\<close>: \<open>/\<close> and \<open>%\<close> truncate towards zero (\<open>sdiv\<close> and \<open>smod\<close> on the signed
  readings); \<open>+\<close>, \<open>-\<close> and \<open>*\<close> are taken with two's complement wrap-around, where
  C++ leaves a signed overflow undefined.  \<open>my_pow\<close> goes through the floating-point
  \<open>pow\<close> and is a parameter of the catalog, as is the fitness hook.
\<close>

definition div_ok :: "Value \<Rightarrow> Value \<Rightarrow> bool" where
  "div_ok a b = (if a = - (2 ^ 31) \<and> b = - 1 then False else b \<noteq> 0)"

definition my_add :: "Value \<Rightarrow> Value \<Rightarrow> Value" where
  "my_add a b = a + b"

definition my_sub :: "Value \<Rightarrow> Value \<Rightarrow> Value" where
  "my_sub a b = a - b"

definition my_mul :: "Value \<Rightarrow> Value \<Rightarrow> Value" where
  "my_mul a b = a * b"

definition my_div :: "Value \<Rightarrow> Value \<Rightarrow> Value" where
  "my_div a b = (if div_ok a b then word_of_int (sint a sdiv sint b) else 0)"

definition my_mod :: "Value \<Rightarrow> Value \<Rightarrow> Value" where
  "my_mod a b = (if div_ok a b then word_of_int (sint a smod sint b) else 0)"

definition my_and :: "Value \<Rightarrow> Value \<Rightarrow> Value" where
  "my_and a b = a AND b"

definition my_or :: "Value \<Rightarrow> Value \<Rightarrow> Value" where
  "my_or a b = a OR b"

definition my_xor :: "Value \<Rightarrow> Value \<Rightarrow> Value" where
  "my_xor a b = a XOR b"

definition my_repo ::
  "(MultiFunction \<Rightarrow> Feedback) \<Rightarrow> (Value \<Rightarrow> Value \<Rightarrow> Value) \<Rightarrow> OpRepo" where
  "my_repo find_weakness_fn my_pow =
     (OpRepo_add ''xor'' my_xor
     (OpRepo_add ''or'' my_or
     (OpRepo_add ''and'' my_and
     (OpRepo_add ''pow'' my_pow
     (OpRepo_add ''mod'' my_mod
     (OpRepo_add ''div'' my_div
     (OpRepo_add ''mul'' my_mul
     (OpRepo_add ''sub'' my_sub
     (OpRepo_add ''add'' my_add
     (OpRepo_new find_weakness_fn))))))))))"

definition add_id :: nat where "add_id = 1"
definition sub_id :: nat where "sub_id = 2"
definition mul_id :: nat where "mul_id = 3"
definition div_id :: nat where "div_id = 4"
definition mod_id :: nat where "mod_id = 5"
definition pow_id :: nat where "pow_id = 6"

text \<open>
  Slot 0 of the hand-crafted solution of the test: \<open>_1 = c - a\<close>, \<open>_2 = c + a\<close>,
  \<open>_3 = _1 * _2\<close>, with \<open>a = Ref::in(0)\<close> and \<open>c = Ref::in(2)\<close>.
\<close>

definition hand_crafted_slot0 :: "Program \<Rightarrow> error + (Ref \<times> Program)" where
  "hand_crafted_slot0 prog =
     (let a = Ref_in 0; c = Ref_in 2 in
      case add_op prog sub_id c a of
        Inl e \<Rightarrow> Inl e
      | Inr (r1, prog1) \<Rightarrow>
         (case add_op prog1 add_id c a of
            Inl e \<Rightarrow> Inl e
          | Inr (r2, prog2) \<Rightarrow> add_op prog2 mul_id r1 r2))"

section \<open>Notions used to state the properties\<close>

text \<open>
  The quotient and remainder of integer division that truncates towards zero, on
  the mathematical integers.
\<close>

definition trunc_quot :: "int \<Rightarrow> int \<Rightarrow> int" where
  "trunc_quot a b = sgn a * sgn b * (\<bar>a\<bar> div \<bar>b\<bar>)"

definition trunc_rem :: "int \<Rightarrow> int \<Rightarrow> int" where
  "trunc_rem a b = sgn a * (\<bar>a\<bar> mod \<bar>b\<bar>)"

text \<open>
  A catalog as the constructor and \<open>add\<close> leave it: it holds the forward entry, and
  its size is a \<open>size_t\<close>.
\<close>

definition repo_ok :: "OpRepo \<Rightarrow> bool" where
  "repo_ok r = (entries r \<noteq> [] \<and> length (entries r) \<le> 2 ^ 64)"

text \<open>The operation list that slot 0 of the hand-crafted solution builds.\<close>

definition slot0_ops :: "Op list" where
  "slot0_ops = [\<lparr>code = 2, lhs = Ref (- 3), rhs = Ref (- 1)\<rparr>,
               \<lparr>code = 1, lhs = Ref (- 3), rhs = Ref (- 1)\<rparr>,
               \<lparr>code = 3, lhs = Ref 0, rhs = Ref 1\<rparr>]"

text \<open>
  The reference invariant of a program.  \<open>ref_ok n_in limit r\<close>: \<open>r\<close> holds an \<open>int\<close>
  and refers to an input in \<open>0 .. n_in - 1\<close> (encoded as \<open>- n_in .. - 1\<close>) or to an
  operation at a position below \<open>limit\<close>.  In a valid program every operation has a
  code of the catalog and operands that are inputs or strictly earlier operations;
  this is what \<open>add_op\<close> asserts for each operation it appends.
\<close>

definition ref_ok :: "nat \<Rightarrow> nat \<Rightarrow> Ref \<Rightarrow> bool" where
  "ref_ok n_in limit r =
     (- int n_in \<le> idx r \<and> idx r < int limit \<and> - (2 ^ 31) \<le> idx r \<and> idx r < 2 ^ 31)"

definition op_ok :: "OpRepo \<Rightarrow> nat \<Rightarrow> nat \<Rightarrow> Op \<Rightarrow> bool" where
  "op_ok r n_in i op =
     (code op \<le> max_op r \<and> ref_ok n_in i (lhs op) \<and> ref_ok n_in i (rhs op))"

definition valid_program :: "Program \<Rightarrow> bool" where
  "valid_program p =
     (repo_ok (prog_repo p) \<and>
      list_all (\<lambda>(i, op). op_ok (prog_repo p) (prog_in_cnt p) i op) (enumerate 0 (prog_ops p)))"

text \<open>
  A concrete catalog, program and generator state on which the statements below are
  evaluated: the catalog of the test with a hook that reports weakness 1 and a
  constant \<open>pow\<close>, the three operations of slot 0 over three inputs, and a generator
  whose raw draws are 2, 4, 6, ...
\<close>

definition example_repo :: OpRepo where
  "example_repo = my_repo (\<lambda>m. [Fin 1]) (\<lambda>a b. 0)"

definition example_program :: Program where
  "example_program = (Program_new example_repo 3 3 0)\<lparr>prog_ops := slot0_ops\<rparr>"

definition example_rnd :: Random where
  "example_rnd = \<lparr>draws = (\<lambda>n. 2 * n + 2), pos = 0\<rparr>"

text \<open>A generator whose raw draws are 1, 0, 1, 1, ...\<close>

definition repeating_rnd :: Random where
  "repeating_rnd = \<lparr>draws = (\<lambda>n. if n = 1 then 0 else 1), pos = 0\<rparr>"

definition example_mutant :: Program where
  "example_mutant = example_program\<lparr>prog_ops :=
     [\<lparr>code = 2, lhs = Ref (- 3), rhs = Ref (- 1)\<rparr>,
      \<lparr>code = 1, lhs = Ref (- 3), rhs = Ref (- 1)\<rparr>,
      \<lparr>code = 3, lhs = Ref (- 2), rhs = Ref 1\<rparr>]\<rparr>"

text \<open>
  A generator whose raw draws are all 70, read from position \<open>n\<close>; example
  populations of \<open>n\<close> copies of the example program; and the two programs that
  growing and ticking produce with this generator.
\<close>

definition steady_rnd :: "nat \<Rightarrow> Random" where
  "steady_rnd n = \<lparr>draws = (\<lambda>k. 70), pos = n\<rparr>"

definition example_population :: "nat \<Rightarrow> Population" where
  "example_population n =
     \<lparr>pop_rnd = steady_rnd 0, pop_gen = 0,
      pop_params = \<lparr>in_cnt = 3, out_cnt = 3, op_cnt = 3, pop_cnt = n\<rparr>,
      pop_repo = example_repo, pop_programs = replicate n example_program\<rparr>"




definition example_grown :: Program where
  "example_grown =
     \<lparr>prog_repo = example_repo,
      prog_stats = \<lparr>weakness = Fin 1, cost = 0, born = 0\<rparr>,
      prog_in_cnt = 3, prog_out_cnt = 3,
      prog_ops = [\<lparr>code = 0, lhs = Ref (- 2), rhs = Ref (- 2)\<rparr>,
                  \<lparr>code = 0, lhs = Ref (- 1), rhs = Ref (- 1)\<rparr>,
                  \<lparr>code = 0, lhs = Ref (- 3), rhs = Ref (- 3)\<rparr>],
      best_slot = 0\<rparr>"



text \<open>
  A program as \<open>Program::grow\<close> leaves it and \<open>mutate\<close> keeps it: valid, not empty,
  of a length that is a multiple of the output count, with sizes that fit an \<open>int\<close>.
\<close>

definition program_ok :: "Program \<Rightarrow> bool" where
  "program_ok p =
     (valid_program p \<and> prog_ops p \<noteq> [] \<and> length (prog_ops p) \<le> 2 ^ 31 \<and>
      prog_in_cnt p \<le> 2 ^ 31 \<and> length (entries (prog_repo p)) \<le> 2 ^ 31 \<and>
      0 < prog_out_cnt p \<and> length (prog_ops p) mod prog_out_cnt p = 0)"












text \<open>
  The size of an expression re-derived from its rendered string.  The string is cut
  at the three punctuation characters of the rendering; a token is a maximal run of
  other characters.  An input token is \<open>i\<close> followed by decimal digits, an
  operation-name token is a token that is a name of the catalog.
\<close>

definition is_delim :: "char \<Rightarrow> bool" where
  "is_delim c = (c = CHR ''('' \<or> c = CHR '','' \<or> c = CHR '')'')"

definition is_digit :: "char \<Rightarrow> bool" where
  "is_digit c = (c \<in> set ''0123456789'')"

fun tokens_from :: "string \<Rightarrow> string \<Rightarrow> string list" where
  "tokens_from cur [] = (if cur = [] then [] else [cur])"
| "tokens_from cur (c # cs) =
     (if is_delim c then (if cur = [] then [] else [cur]) @ tokens_from [] cs
      else tokens_from (cur @ [c]) cs)"

definition tokens :: "string \<Rightarrow> string list" where
  "tokens s = tokens_from [] s"

definition is_input_token :: "string \<Rightarrow> bool" where
  "is_input_token t =
     (case t of [] \<Rightarrow> False | c # ds \<Rightarrow> c = CHR ''i'' \<and> ds \<noteq> [] \<and> list_all is_digit ds)"

definition is_op_token :: "OpRepo \<Rightarrow> string \<Rightarrow> bool" where
  "is_op_token r t = (t \<in> set (map entry_name (entries r)))"

definition count_nodes :: "OpRepo \<Rightarrow> string list \<Rightarrow> nat" where
  "count_nodes r ts = length (filter (is_op_token r) ts) + length (filter is_input_token ts)"

definition derived_size :: "OpRepo \<Rightarrow> string \<Rightarrow> nat" where
  "derived_size r s = count_nodes r (tokens s)"

text \<open>
  Catalog names that can be told apart in a rendered string: not empty, free of the
  punctuation characters, and not of the form of an input token.
\<close>

definition names_ok :: "OpRepo \<Rightarrow> bool" where
  "names_ok r =
     list_all (\<lambda>e. entry_name e \<noteq> [] \<and> list_all (\<lambda>c. \<not> is_delim c) (entry_name e) \<and>
                   \<not> is_input_token (entry_name e))
       (entries r)"

text \<open>
  The number of nodes of the expanded expression, as the specification describes
  it, on the unbounded natural numbers: an input has size 1, a forward operation
  the size of its left operand, any other operation 1 plus the sizes of both
  operands.  The table is built front to back, as in \<open>size_of\<close>, without wrap-around.
\<close>

definition node_count_get :: "nat list \<Rightarrow> Ref \<Rightarrow> nat" where
  "node_count_get tab r = (if is_input r then 1 else tab ! op_idx r)"

fun node_counts :: "Op list \<Rightarrow> nat list \<Rightarrow> nat list" where
  "node_counts [] tab = tab"
| "node_counts (op # ops) tab =
     node_counts ops
       (tab @ [if code op = 0 then node_count_get tab (lhs op)
               else 1 + node_count_get tab (lhs op) + node_count_get tab (rhs op)])"

definition node_count :: "Program \<Rightarrow> Ref \<Rightarrow> nat" where
  "node_count p r = node_count_get (node_counts (prog_ops p) []) r"

text \<open>
  A program of 64 operations over one input in which every operation adds the
  previous result to itself, and the last one adds input 0 to the previous result.
\<close>

definition doubling_ops :: "Op list" where
  "doubling_ops =
     map (\<lambda>k. \<lparr>code = 1, lhs = Ref (int k - 1), rhs = Ref (int k - 1)\<rparr>) [0..<63] @
     [\<lparr>code = 1, lhs = Ref 62, rhs = Ref (- 1)\<rparr>]"

definition doubling_program :: Program where
  "doubling_program = (Program_new example_repo 1 1 0)\<lparr>prog_ops := doubling_ops\<rparr>"

text \<open>
  A catalog whose second operation is named like an input, and a program over it
  with the single operation \<open>i0(i0,i0)\<close>.
\<close>

definition alias_repo :: OpRepo where
  "alias_repo = OpRepo_add ''i0'' my_add (OpRepo_new (\<lambda>m. [Fin 1]))"

definition alias_program :: Program where
  "alias_program =
     (Program_new alias_repo 1 1 0)\<lparr>prog_ops := [\<lparr>code = 1, lhs = Ref (- 1), rhs = Ref (- 1)\<rparr>]\<rparr>"

section \<open>Basic facts about the machine-integer helpers\<close>

lemma size_wrap_id: "0 \<le> k \<Longrightarrow> k < 2 ^ 64 \<Longrightarrow> size_wrap k = nat k"
  by (simp add: size_wrap_def)

lemma op_idx_Ref [simp]: "0 \<le> k \<Longrightarrow> k < 2 ^ 64 \<Longrightarrow> op_idx (Ref k) = nat k"
  by (simp add: op_idx_def size_wrap_def)

lemma in_idx_Ref [simp]: "k < 0 \<Longrightarrow> - (2 ^ 64) \<le> k \<Longrightarrow> in_idx (Ref k) = nat (- k - 1)"
  by (simp add: in_idx_def size_wrap_def)

lemma is_input_Ref [simp]: "is_input (Ref k) = (k < 0)"
  by (simp add: is_input_def)

lemma is_operation_Ref [simp]: "is_operation (Ref k) = (0 \<le> k)"
  by (simp add: is_operation_def)

section \<open>The catalog of the test\<close>

lemma entries_my_repo:
  "entries (my_repo fw pw) =
     [\<lparr>entry_name = ''forward'', entry_fun = forward_op, entry_cost = 0\<rparr>,
      \<lparr>entry_name = ''add'', entry_fun = my_add, entry_cost = 1\<rparr>,
      \<lparr>entry_name = ''sub'', entry_fun = my_sub, entry_cost = 1\<rparr>,
      \<lparr>entry_name = ''mul'', entry_fun = my_mul, entry_cost = 1\<rparr>,
      \<lparr>entry_name = ''div'', entry_fun = my_div, entry_cost = 1\<rparr>,
      \<lparr>entry_name = ''mod'', entry_fun = my_mod, entry_cost = 1\<rparr>,
      \<lparr>entry_name = ''pow'', entry_fun = pw, entry_cost = 1\<rparr>,
      \<lparr>entry_name = ''and'', entry_fun = my_and, entry_cost = 1\<rparr>,
      \<lparr>entry_name = ''or'', entry_fun = my_or, entry_cost = 1\<rparr>,
      \<lparr>entry_name = ''xor'', entry_fun = my_xor, entry_cost = 1\<rparr>]"
  by (simp add: my_repo_def OpRepo_add_def OpRepo_new_def)

lemma max_op_my_repo: "max_op (my_repo fw pw) = 9"
  by (simp add: max_op_def entries_my_repo size_dec_def size_wrap_def)

section \<open>Signed 32-bit division\<close>

lemma sint_range32: "- (2 ^ 31) \<le> sint (a::Value) \<and> sint a < 2 ^ 31"
  using sint_ge[of a] sint_lt[of a] by simp

lemma sint_of_int32:
  "- (2 ^ 31) \<le> k \<Longrightarrow> k < 2 ^ 31 \<Longrightarrow> sint (word_of_int k :: Value) = k"
  by (simp add: signed_of_int signed_take_bit_int_eq_self)

lemma sint_int_min_word: "sint (- (2 ^ 31) :: Value) = - (2 ^ 31)"
proof -
  have "sint (word_of_int (- (2 ^ 31)) :: Value) = - (2 ^ 31)"
    by (rule sint_of_int32) simp_all
  then show ?thesis by simp
qed

lemma sint_int_min: "(sint (a::Value) = - (2 ^ 31)) = (a = - (2 ^ 31))"
proof
  assume "sint a = - (2 ^ 31)"
  then have "sint a = sint (- (2 ^ 31) :: Value)" by simp
  then show "a = - (2 ^ 31)" by (rule signed_word_eqI)
next
  assume "a = - (2 ^ 31)"
  then show "sint a = - (2 ^ 31)" by (simp add: sint_int_min_word)
qed

lemma sint_minus1: "(sint (b::Value) = - 1) = (b = - 1)"
  by (metis sint_n1 signed_word_eqI)

lemma sint_zero: "(sint (b::Value) = 0) = (b = 0)"
  by (metis signed_eq_0_iff)

lemma trunc_quot_bounds:
  fixes x y :: int
  assumes "- (2 ^ 31) \<le> x" "x < 2 ^ 31" "y \<noteq> 0" "\<not> (x = - (2 ^ 31) \<and> y = - 1)"
  shows "- (2 ^ 31) \<le> trunc_quot x y \<and> trunc_quot x y < 2 ^ 31"
proof -
  have le: "\<bar>x\<bar> div \<bar>y\<bar> \<le> \<bar>x\<bar>"
    using assms(3) by (smt (verit) div_by_1 zdiv_mono2)
  have nonneg: "0 \<le> \<bar>x\<bar> div \<bar>y\<bar>"
    using assms(3) by (simp add: pos_imp_zdiv_nonneg_iff)
  show ?thesis
  proof (cases "x = - (2 ^ 31)")
    case False
    with assms le have "\<bar>x\<bar> div \<bar>y\<bar> < 2 ^ 31" by linarith
    with nonneg show ?thesis
      by (cases "0 \<le> x"; cases "0 \<le> y") (auto simp: trunc_quot_def sgn_if)
  next
    case True
    show ?thesis
    proof (cases "\<bar>y\<bar> = 1")
      case True
      with assms \<open>x = - (2 ^ 31)\<close> have "y = 1" by linarith
      with \<open>x = - (2 ^ 31)\<close> show ?thesis by (simp add: trunc_quot_def)
    next
      case False
      with assms(3) have "2 \<le> \<bar>y\<bar>" by linarith
      then have "\<bar>x\<bar> div \<bar>y\<bar> \<le> \<bar>x\<bar> div 2"
        by (intro zdiv_mono2) auto
      with True have "\<bar>x\<bar> div \<bar>y\<bar> < 2 ^ 31" by simp
      with nonneg show ?thesis
        by (cases "0 \<le> x"; cases "0 \<le> y") (auto simp: trunc_quot_def sgn_if)
    qed
  qed
qed

lemma trunc_rem_bounds:
  fixes x y :: int
  assumes "- (2 ^ 31) \<le> x" "x < 2 ^ 31" "y \<noteq> 0"
  shows "- (2 ^ 31) \<le> trunc_rem x y \<and> trunc_rem x y < 2 ^ 31"
proof -
  define m where "m = \<bar>x\<bar> mod \<bar>y\<bar>"
  have "m \<le> \<bar>x\<bar>"
    unfolding m_def by (simp add: zmod_le_nonneg_dividend)
  moreover have "0 \<le> m"
    unfolding m_def using assms(3) by simp
  moreover have "trunc_rem x y = sgn x * m"
    by (simp add: trunc_rem_def m_def)
  ultimately show ?thesis
    using assms(1,2) by (cases "0 \<le> x") (auto simp: sgn_if)
qed

lemma sdiv_is_trunc_quot: "(x::int) sdiv y = trunc_quot x y"
  by (simp add: trunc_quot_def signed_divide_int_def)

lemma smod_is_trunc_rem: "(x::int) smod y = trunc_rem x y"
  by (simp add: trunc_rem_def signed_modulo_int_def)

section \<open>Claims about the catalog and the Stats order\<close>

text \<open>
  Claim C3.  \<open>Stats::operator<\<close> is the lexicographic comparison: \<open>a\<close> is better than
  \<open>b\<close> iff \<open>a.weakness < b.weakness\<close>, or the weaknesses are equal (the C++ \<open>!=\<close> is
  false) and \<open>a.cost < b.cost\<close>, or weaknesses and costs are equal and
  \<open>a.born > b.born\<close> (the younger individual wins).  This holds for every pair of
  Stats values, not-a-number weaknesses included.
\<close>

theorem Stats_less_lexicographic:
  "Stats_less a b \<longleftrightarrow>
     weakness_less (weakness a) (weakness b)
     \<or> (\<not> weakness_neq (weakness a) (weakness b) \<and> cost a < cost b)
     \<or> (\<not> weakness_neq (weakness a) (weakness b) \<and> cost a = cost b \<and> born a > born b)"
proof -
  have "weakness_less x y \<Longrightarrow> weakness_neq x y" for x y
    by (cases x; cases y) auto
  then show ?thesis
    by (auto simp: Stats_less_def)
qed

theorem Stats_less_lexicographic_witness:
  "Stats_less \<lparr>weakness = Fin 1, cost = 2, born = 5\<rparr> \<lparr>weakness = Fin 1, cost = 2, born = 3\<rparr>
   \<and> \<not> Stats_less \<lparr>weakness = Fin 1, cost = 3, born = 5\<rparr> \<lparr>weakness = Fin 1, cost = 2, born = 3\<rparr>
   \<and> Stats_less \<lparr>weakness = Fin 0, cost = 3, born = 1\<rparr> \<lparr>weakness = Fin 1, cost = 2, born = 3\<rparr>"
  using Stats_less_lexicographic
    [of "\<lparr>weakness = Fin 1, cost = 2, born = 5\<rparr>" "\<lparr>weakness = Fin 1, cost = 2, born = 3\<rparr>"]
    Stats_less_lexicographic
    [of "\<lparr>weakness = Fin 1, cost = 3, born = 5\<rparr>" "\<lparr>weakness = Fin 1, cost = 2, born = 3\<rparr>"]
    Stats_less_lexicographic
    [of "\<lparr>weakness = Fin 0, cost = 3, born = 1\<rparr>" "\<lparr>weakness = Fin 1, cost = 2, born = 3\<rparr>"]
  by simp

text \<open>
  Claim C6.  For the catalog's division (code 4) and modulo (code 5), \<open>perform\<close>
  returns a value for every operand pair: 0 when the right operand is 0 or when the
  left operand is the most negative \<open>int\<close> and the right operand is \<open>-1\<close>, and otherwise
  the quotient, respectively the remainder, of the division that truncates towards
  zero, computed on the signed readings of the operands without overflow.
\<close>

theorem perform_div_mod:
  "\<exists>q r. perform (my_repo fw pw) div_id a b = Inr q \<and>
         perform (my_repo fw pw) mod_id a b = Inr r \<and>
         sint q = (if sint b = 0 \<or> (sint a = - (2 ^ 31) \<and> sint b = - 1) then 0
                   else trunc_quot (sint a) (sint b)) \<and>
         sint r = (if sint b = 0 \<or> (sint a = - (2 ^ 31) \<and> sint b = - 1) then 0
                   else trunc_rem (sint a) (sint b))"
proof -
  have p: "perform (my_repo fw pw) div_id a b = Inr (my_div a b)"
    "perform (my_repo fw pw) mod_id a b = Inr (my_mod a b)"
    by (simp_all add: perform_def entries_my_repo div_id_def mod_id_def)
  have ok: "div_ok a b = (\<not> (sint b = 0 \<or> (sint a = - (2 ^ 31) \<and> sint b = - 1)))"
    using sint_int_min[of a] sint_minus1[of b] sint_zero[of b] by (auto simp: div_ok_def)
  have q: "sint (my_div a b) =
      (if sint b = 0 \<or> (sint a = - (2 ^ 31) \<and> sint b = - 1) then 0
       else trunc_quot (sint a) (sint b))"
    using trunc_quot_bounds[of "sint a" "sint b"] sint_range32[of a]
    by (auto simp: my_div_def ok sdiv_is_trunc_quot sint_of_int32)
  have r: "sint (my_mod a b) =
      (if sint b = 0 \<or> (sint a = - (2 ^ 31) \<and> sint b = - 1) then 0
       else trunc_rem (sint a) (sint b))"
    using trunc_rem_bounds[of "sint a" "sint b"] sint_range32[of a]
    by (auto simp: my_mod_def ok smod_is_trunc_rem sint_of_int32)
  show ?thesis using p q r by simp
qed

theorem perform_div_mod_witness:
  "\<exists>q r. perform (my_repo (\<lambda>m. []) (\<lambda>a b. 0)) div_id (- 7) 2 = Inr q \<and>
         perform (my_repo (\<lambda>m. []) (\<lambda>a b. 0)) mod_id (- 7) 2 = Inr r \<and>
         sint q = - 3 \<and> sint r = - 1"
  using perform_div_mod[of "\<lambda>m. []" "\<lambda>a b. 0" "- 7" 2]
  by (simp add: trunc_quot_def trunc_rem_def)

text \<open>
  Claim C7, as the code has it.  \<open>name_of\<close> and \<open>cost_of\<close> index the entry vector
  without any check: for a code up to \<open>max_op()\<close> they return the entry's name and
  cost, and for a code above \<open>max_op()\<close> the access is out of range, which is
  undefined behaviour and not an assertion.  The assertion \<open>code <= max_op()\<close> of the
  engine is in \<open>Program::add_op\<close>, which rejects such a code before it can enter a
  program.  \<open>repo_ok\<close> says that the catalog holds the forward entry and that its
  size is a \<open>size_t\<close>.
\<close>

lemma max_op_repo_ok: "repo_ok r \<Longrightarrow> max_op r = length (entries r) - 1"
  by (cases "entries r")
     (auto simp: repo_ok_def max_op_def size_dec_def size_wrap_def nat_mod_distrib)

theorem lookups_unchecked:
  assumes "repo_ok r"
  shows "(op \<le> max_op r \<longrightarrow>
            name_of r op = Inr (entry_name (entries r ! op)) \<and>
            cost_of r op = Inr (entry_cost (entries r ! op))) \<and>
         (max_op r < op \<longrightarrow>
            name_of r op = Inl UndefinedBehaviour \<and>
            cost_of r op = Inl UndefinedBehaviour \<and>
            (\<forall>p l rr. prog_repo p = r \<longrightarrow> add_op p op l rr = Inl AssertionFailed))"
proof -
  from assms obtain n where n: "length (entries r) = Suc n"
    by (cases "entries r") (auto simp: repo_ok_def)
  with max_op_repo_ok[OF assms] have m: "max_op r = n" by simp
  show ?thesis
    by (auto simp: name_of_def cost_of_def add_op_def m n)
qed

theorem lookups_unchecked_witness:
  "repo_ok (my_repo (\<lambda>m. []) (\<lambda>a b. 0)) \<and>
   (3::nat) \<le> max_op (my_repo (\<lambda>m. []) (\<lambda>a b. 0)) \<and>
   name_of (my_repo (\<lambda>m. []) (\<lambda>a b. 0)) 3 = Inr ''mul'' \<and>
   cost_of (my_repo (\<lambda>m. []) (\<lambda>a b. 0)) 3 = Inr 1 \<and>
   max_op (my_repo (\<lambda>m. []) (\<lambda>a b. 0)) < 10 \<and>
   name_of (my_repo (\<lambda>m. []) (\<lambda>a b. 0)) 10 = Inl UndefinedBehaviour \<and>
   cost_of (my_repo (\<lambda>m. []) (\<lambda>a b. 0)) 10 = Inl UndefinedBehaviour \<and>
   add_op (Program_new (my_repo (\<lambda>m. []) (\<lambda>a b. 0)) 3 3 0) 10 (Ref_in 0) (Ref_in 0)
     = Inl AssertionFailed"
proof -
  let ?r = "my_repo (\<lambda>m. []) (\<lambda>a b. 0)"
  have ok: "repo_ok ?r" by (simp add: repo_ok_def entries_my_repo)
  have "prog_repo (Program_new ?r 3 3 0) = ?r" by (simp add: Program_new_def)
  with lookups_unchecked[OF ok, of 3] lookups_unchecked[OF ok, of 10] ok
  show ?thesis by (simp add: max_op_my_repo entries_my_repo)
qed

theorem lookup_out_of_range_counterexample:
  "max_op (my_repo (\<lambda>m. []) (\<lambda>a b. 0)) < 10 \<and>
   name_of (my_repo (\<lambda>m. []) (\<lambda>a b. 0)) 10 \<noteq> Inl AssertionFailed \<and>
   cost_of (my_repo (\<lambda>m. []) (\<lambda>a b. 0)) 10 \<noteq> Inl AssertionFailed"
  by (simp add: max_op_my_repo name_of_def cost_of_def entries_my_repo)

section \<open>The hand-crafted expression of the test\<close>

lemma hand_crafted_slot0_result:
  assumes "3 \<le> n_in"
  shows "hand_crafted_slot0 (Program_new r n_in n_out g) =
     (if 3 \<le> max_op r
      then Inr (Ref 2, (Program_new r n_in n_out g)\<lparr>prog_ops := slot0_ops\<rparr>)
      else Inl AssertionFailed)"
  using assms
  by (simp add: hand_crafted_slot0_def Program_new_def add_op_def sub_id_def add_id_def
      mul_id_def assert_valid_def is_input_def is_operation_def in_idx_def op_idx_def
      size_wrap_def Ref_in_def Ref_op_def size_to_int_def size_add_def Let_def slot0_ops_def)

lemma slot0_sizes:
  assumes "prog_ops p = slot0_ops"
  shows "size_of p (Ref 0) = Inr 3" "size_of p (Ref 1) = Inr 3" "size_of p (Ref 2) = Inr 7"
  using assms
  by (simp_all add: slot0_ops_def size_of_def assert_valid_def get_size_def size_add_def)

lemma as_string_input:
  "is_input r \<Longrightarrow> in_idx r < prog_in_cnt p \<Longrightarrow>
   as_string p r = Some (Inr (''i'' @ show_nat (in_idx r)))"
  by (subst as_string.simps)
     (auto simp: assert_valid_def size_of_def is_input_def is_operation_def)

lemma as_string_op:
  "is_operation r \<Longrightarrow> op_idx r < length (prog_ops p) \<Longrightarrow>
   size_of p r = Inr n \<Longrightarrow> n \<le> 9000 \<Longrightarrow>
   code (prog_ops p ! op_idx r) \<noteq> 0 \<Longrightarrow>
   name_of (prog_repo p) (code (prog_ops p ! op_idx r)) = Inr nm \<Longrightarrow>
   as_string p (lhs (prog_ops p ! op_idx r)) = Some (Inr l) \<Longrightarrow>
   as_string p (rhs (prog_ops p ! op_idx r)) = Some (Inr rr) \<Longrightarrow>
   as_string p r = Some (Inr (nm @ ''('' @ l @ '','' @ rr @ '')''))"
  by (subst as_string.simps)
     (auto simp: assert_valid_def is_input_def is_operation_def Let_def)

lemma as_string_slot0:
  assumes "3 \<le> prog_in_cnt p" "prog_ops p = slot0_ops" "prog_repo p = my_repo fw pw"
  shows "as_string p (Ref 2) = Some (Inr ''mul(sub(i2,i0),add(i2,i0))'')"
proof -
  note ops = assms(2) and repo = assms(3)
  have i0: "as_string p (Ref (- 1)) = Some (Inr ''i0'')"
    using assms(1) by (simp add: as_string_input show_nat.simps)
  have i2: "as_string p (Ref (- 3)) = Some (Inr ''i2'')"
    using assms(1) by (simp add: as_string_input show_nat.simps)
  have nm: "name_of (my_repo fw pw) 2 = Inr ''sub''" "name_of (my_repo fw pw) 1 = Inr ''add''"
    "name_of (my_repo fw pw) 3 = Inr ''mul''"
    by (simp_all add: name_of_def entries_my_repo)
  have s0: "as_string p (Ref 0) = Some (Inr ''sub(i2,i0)'')"
    using as_string_op[of "Ref 0" p 3 "''sub''" "''i2''" "''i0''"] slot0_sizes(1)[OF ops] i0 i2 nm
    by (simp add: ops repo slot0_ops_def)
  have s1: "as_string p (Ref 1) = Some (Inr ''add(i2,i0)'')"
    using as_string_op[of "Ref 1" p 3 "''add''" "''i2''" "''i0''"] slot0_sizes(2)[OF ops] i0 i2 nm
    by (simp add: ops repo slot0_ops_def)
  show ?thesis
    using as_string_op[of "Ref 2" p 7 "''mul''" "''sub(i2,i0)''" "''add(i2,i0)''"]
      slot0_sizes(3)[OF ops] s0 s1 nm
    by (simp add: ops repo slot0_ops_def)
qed

text \<open>
  Claim C8, as the code has it.  For a program over at least three inputs built with
  \<open>add_op\<close> as operation 0 = \<open>sub(i2,i0)\<close>, operation 1 = \<open>add(i2,i0)\<close> and operation
  2 = \<open>mul\<close> of those two results, \<open>as_string\<close> of the reference to operation 2 is
  exactly \<open>mul(sub(i2,i0),add(i2,i0))\<close> and \<open>size_of\<close> of that reference is 7 (one for
  \<open>mul\<close> plus 3 for each operand), not 5.
\<close>

theorem hand_crafted_string_and_size:
  assumes "3 \<le> n_in"
  shows "\<exists>r p. hand_crafted_slot0 (Program_new (my_repo fw pw) n_in n_out g) = Inr (r, p) \<and>
               as_string p r = Some (Inr ''mul(sub(i2,i0),add(i2,i0))'') \<and>
               size_of p r = Inr 7"
proof -
  let ?p = "(Program_new (my_repo fw pw) n_in n_out g)\<lparr>prog_ops := slot0_ops\<rparr>"
  have "hand_crafted_slot0 (Program_new (my_repo fw pw) n_in n_out g) = Inr (Ref 2, ?p)"
    using assms by (simp add: hand_crafted_slot0_result max_op_my_repo)
  moreover have "as_string ?p (Ref 2) = Some (Inr ''mul(sub(i2,i0),add(i2,i0))'')"
    using assms by (intro as_string_slot0[where fw=fw and pw=pw]) (simp_all add: Program_new_def)
  moreover have "size_of ?p (Ref 2) = Inr 7"
    by (rule slot0_sizes) simp
  ultimately show ?thesis by blast
qed

theorem hand_crafted_string_and_size_witness:
  "(3::nat) \<le> 6 \<and>
   (\<exists>r p. hand_crafted_slot0 (Program_new (my_repo (\<lambda>m. []) (\<lambda>a b. 0)) 6 3 0) = Inr (r, p) \<and>
          as_string p r = Some (Inr ''mul(sub(i2,i0),add(i2,i0))'') \<and>
          size_of p r = Inr 7)"
  using hand_crafted_string_and_size[of 6 "\<lambda>m. []" "\<lambda>a b. 0" 3 0] by simp

theorem hand_crafted_size_counterexample:
  "hand_crafted_slot0 (Program_new (my_repo (\<lambda>m. []) (\<lambda>a b. 0)) 6 3 0) =
     Inr (Ref 2, (Program_new (my_repo (\<lambda>m. []) (\<lambda>a b. 0)) 6 3 0)\<lparr>prog_ops := slot0_ops\<rparr>) \<and>
   size_of ((Program_new (my_repo (\<lambda>m. []) (\<lambda>a b. 0)) 6 3 0)\<lparr>prog_ops := slot0_ops\<rparr>) (Ref 2)
     \<noteq> Inr 5"
  by (simp add: hand_crafted_slot0_result max_op_my_repo slot0_sizes)


section \<open>Conversions between \<open>size_t\<close> and \<open>int\<close>\<close>

lemma size_to_int_size_wrap: "size_to_int (size_wrap k) = signed_take_bit 31 k"
proof -
  have "size_to_int (size_wrap k) = signed_take_bit 31 (take_bit 64 k)"
    by (simp add: size_to_int_def size_wrap_def take_bit_eq_mod)
  then show ?thesis by (simp add: signed_take_bit_take_bit)
qed

lemma size_to_int_le: "size_to_int n \<le> int n"
  by (simp add: size_to_int_def signed_take_bit_int_less_eq_self_iff)

lemma size_to_int_range: "- (2 ^ 31) \<le> size_to_int n \<and> size_to_int n < 2 ^ 31"
  using signed_take_bit_int_greater_eq_minus_exp[of 31 "int n"]
    signed_take_bit_int_less_exp[of 31 "int n"]
  by (simp add: size_to_int_def)

lemma size_to_int_small: "n < 2 ^ 31 \<Longrightarrow> size_to_int n = int n"
  by (simp add: size_to_int_def signed_take_bit_int_eq_self)

lemma size_to_int_size_dec: "size_to_int (size_dec n) = signed_take_bit 31 (int n - 1)"
  by (simp add: size_dec_def size_to_int_size_wrap)

lemma size_to_int_size_neg: "size_to_int (size_neg n) = signed_take_bit 31 (- int n)"
  by (simp add: size_neg_def size_to_int_size_wrap)

lemma size_to_int_size_dec_le: "size_to_int (size_dec n) \<le> int n - 1"
proof -
  have "- (2 ^ 31) \<le> int n - 1" by simp
  then have "signed_take_bit 31 (int n - 1) \<le> int n - 1"
    by (simp only: signed_take_bit_int_less_eq_self_iff)
  then show ?thesis by (simp only: size_to_int_size_dec)
qed

lemma size_to_int_size_dec_small:
  "n \<le> 2 ^ 31 \<Longrightarrow> size_to_int (size_dec n) = int n - 1"
  by (simp add: size_to_int_size_dec signed_take_bit_int_eq_self)

lemma size_to_int_size_neg_ge: "- int n \<le> size_to_int (size_neg n)"
  by (simp add: size_to_int_size_neg signed_take_bit_int_greater_eq_self_iff)

lemma size_to_int_size_neg_small:
  "n \<le> 2 ^ 31 \<Longrightarrow> size_to_int (size_neg n) = - int n"
  by (simp add: size_to_int_size_neg signed_take_bit_int_eq_self)

section \<open>The random source\<close>

lemma Random_get_range:
  assumes "Random_get rnd lo hi = Inr (v, rnd')"
  shows "lo \<le> v \<and> v \<le> hi"
proof -
  from assms have le: "lo \<le> hi"
    and v: "v = lo + int (draws rnd (pos rnd) mod nat (hi - lo + 1))"
    by (auto simp: Random_get_def split: if_splits)
  from le have "draws rnd (pos rnd) mod nat (hi - lo + 1) < nat (hi - lo + 1)"
    by (intro mod_less_divisor) simp
  with le v show ?thesis by linarith
qed

lemma Random_get_defined:
  "lo \<le> hi \<Longrightarrow> \<exists>v rnd'. Random_get rnd lo hi = Inr (v, rnd')"
  by (simp add: Random_get_def)

lemma Ref_rnd_ok:
  assumes "Ref_rnd rnd n_in limit = Inr (r, rnd')"
  shows "ref_ok n_in limit r"
proof -
  from assms obtain v where
    g: "Random_get rnd (size_to_int (size_neg n_in)) (size_to_int (size_dec limit)) = Inr (v, rnd')"
    and r: "r = Ref v"
    by (auto simp: Ref_rnd_def split: sum.splits)
  from Random_get_range[OF g]
  have "size_to_int (size_neg n_in) \<le> v" "v \<le> size_to_int (size_dec limit)" by auto
  with size_to_int_size_neg_ge[of n_in] size_to_int_size_dec_le[of limit]
    size_to_int_range[of "size_neg n_in"] size_to_int_range[of "size_dec limit"]
  show ?thesis by (simp add: ref_ok_def r)
qed

lemma Ref_rnd_small:
  assumes "n_in \<le> 2 ^ 31" "limit \<le> 2 ^ 31"
  shows "Ref_rnd rnd n_in limit =
     (case Random_get rnd (- int n_in) (int limit - 1) of
        Inl e \<Rightarrow> Inl e
      | Inr (v, rnd') \<Rightarrow> Inr (Ref v, rnd'))"
  using assms by (simp add: Ref_rnd_def size_to_int_size_neg_small size_to_int_size_dec_small)

lemma rnd_op_ok:
  assumes "rnd_op p rnd = Inr (c, rnd')"
  shows "c \<le> max_op (prog_repo p)"
proof -
  from assms obtain v where
    g: "Random_get rnd 0 (size_to_int (max_op (prog_repo p))) = Inr (v, rnd')"
    and c: "c = size_wrap v"
    by (auto simp: rnd_op_def split: sum.splits)
  from Random_get_range[OF g] have v: "0 \<le> v" "v \<le> size_to_int (max_op (prog_repo p))" by auto
  with size_to_int_range[of "max_op (prog_repo p)"] have "v < 2 ^ 64" by simp
  with v have "c = nat v" by (simp add: c size_wrap_id)
  with v size_to_int_le[of "max_op (prog_repo p)"] show ?thesis by linarith
qed

section \<open>Valid programs\<close>

lemma valid_program_iff:
  "valid_program p \<longleftrightarrow>
     repo_ok (prog_repo p) \<and>
     (\<forall>i<length (prog_ops p). op_ok (prog_repo p) (prog_in_cnt p) i (prog_ops p ! i))"
  by (simp add: valid_program_def list_all_length nth_enumerate_eq)

lemma ref_ok_mono: "ref_ok n_in i r \<Longrightarrow> i \<le> j \<Longrightarrow> ref_ok n_in j r"
  by (simp add: ref_ok_def)

lemma ref_ok_in_idx:
  assumes "ref_ok n_in limit r" "is_input r"
  shows "in_idx r = nat (- idx r - 1) \<and> in_idx r < n_in"
proof -
  from assms have b: "- int n_in \<le> idx r" "- (2 ^ 31) \<le> idx r" "idx r < 0"
    by (simp_all add: ref_ok_def is_input_def)
  then have "0 \<le> - (idx r + 1)" "- (idx r + 1) < 2 ^ 64" by simp_all
  then have "in_idx r = nat (- (idx r + 1))"
    unfolding in_idx_def by (rule size_wrap_id)
  with b show ?thesis by (simp add: nat_less_iff)
qed

lemma ref_ok_op_idx:
  assumes "ref_ok n_in limit r" "\<not> is_input r"
  shows "op_idx r = nat (idx r) \<and> op_idx r < limit"
proof -
  from assms have b: "idx r < int limit" "idx r < 2 ^ 31" "0 \<le> idx r"
    by (simp_all add: ref_ok_def is_input_def)
  then have "idx r < 2 ^ 64" by simp
  with b have "op_idx r = nat (idx r)"
    unfolding op_idx_def by (intro size_wrap_id) simp_all
  with b show ?thesis by (simp add: nat_less_iff)
qed

lemma ref_ok_assert_valid:
  assumes "ref_ok (prog_in_cnt p) limit r"
  shows "assert_valid p r limit = Inr ()"
proof (cases "is_input r")
  case True
  with ref_ok_in_idx[OF assms True] show ?thesis
    by (simp add: assert_valid_def is_input_def is_operation_def)
next
  case False
  with ref_ok_op_idx[OF assms False] show ?thesis
    by (simp add: assert_valid_def is_input_def is_operation_def)
qed

lemma valid_program_in_cnt:
  assumes "valid_program p" "prog_ops p \<noteq> []"
  shows "1 \<le> prog_in_cnt p"
proof -
  from assms have "op_ok (prog_repo p) (prog_in_cnt p) 0 (prog_ops p ! 0)"
    by (simp add: valid_program_iff)
  then show ?thesis by (simp add: op_ok_def ref_ok_def)
qed

section \<open>Claims about \<open>Program::mutate\<close>\<close>

lemma mutate_cases:
  assumes "mutate p rnd = Inr (p', rnd')"
  obtains i c rnd2 where "i < length (prog_ops p)" "rnd_op p rnd2 = Inr (c, rnd')"
      "p' = p\<lparr>prog_ops := (prog_ops p)[i := (prog_ops p ! i)\<lparr>code := c\<rparr>]\<rparr>"
  | i l rnd2 where "i < length (prog_ops p)" "rnd_ref p rnd2 i = Inr (l, rnd')"
      "p' = p\<lparr>prog_ops := (prog_ops p)[i := (prog_ops p ! i)\<lparr>lhs := l\<rparr>]\<rparr>"
  | i r rnd2 where "i < length (prog_ops p)" "rnd_ref p rnd2 i = Inr (r, rnd')"
      "p' = p\<lparr>prog_ops := (prog_ops p)[i := (prog_ops p ! i)\<lparr>rhs := r\<rparr>]\<rparr>"
  using assms
  by (auto simp: mutate_def Let_def split: sum.splits if_splits prod.splits)

lemma mutate_valid:
  assumes v: "valid_program p" and m: "mutate p rnd = Inr (p', rnd')"
  shows "valid_program p'"
proof -
  from v have repo: "repo_ok (prog_repo p)"
    and ops: "\<And>j. j < length (prog_ops p) \<Longrightarrow>
                op_ok (prog_repo p) (prog_in_cnt p) j (prog_ops p ! j)"
    by (simp_all add: valid_program_iff)
  from m show ?thesis
  proof (cases rule: mutate_cases)
    case (1 i c rnd2)
    from rnd_op_ok[OF 1(2)] ops[OF 1(1)]
    have "op_ok (prog_repo p) (prog_in_cnt p) i ((prog_ops p ! i)\<lparr>code := c\<rparr>)"
      by (simp add: op_ok_def)
    with repo ops 1 show ?thesis
      by (auto simp: valid_program_iff nth_list_update)
  next
    case (2 i l rnd2)
    from 2(2) have "ref_ok (prog_in_cnt p) i l"
      by (auto simp: rnd_ref_def dest: Ref_rnd_ok)
    with ops[OF 2(1)]
    have "op_ok (prog_repo p) (prog_in_cnt p) i ((prog_ops p ! i)\<lparr>lhs := l\<rparr>)"
      by (simp add: op_ok_def)
    with repo ops 2 show ?thesis
      by (auto simp: valid_program_iff nth_list_update)
  next
    case (3 i r rnd2)
    from 3(2) have "ref_ok (prog_in_cnt p) i r"
      by (auto simp: rnd_ref_def dest: Ref_rnd_ok)
    with ops[OF 3(1)]
    have "op_ok (prog_repo p) (prog_in_cnt p) i ((prog_ops p ! i)\<lparr>rhs := r\<rparr>)"
      by (simp add: op_ok_def)
    with repo ops 3 show ?thesis
      by (auto simp: valid_program_iff nth_list_update)
  qed
qed

lemma rnd_op_defined:
  assumes "repo_ok (prog_repo p)" "length (entries (prog_repo p)) \<le> 2 ^ 31"
  shows "\<exists>c rnd'. rnd_op p rnd = Inr (c, rnd')"
proof -
  from assms have "max_op (prog_repo p) < 2 ^ 31"
    by (cases "entries (prog_repo p)") (auto simp: max_op_repo_ok repo_ok_def)
  then have "0 \<le> size_to_int (max_op (prog_repo p))"
    by (simp add: size_to_int_small)
  from Random_get_defined[OF this, of rnd] show ?thesis
    by (auto simp: rnd_op_def)
qed

lemma rnd_ref_defined:
  assumes "1 \<le> prog_in_cnt p" "prog_in_cnt p \<le> 2 ^ 31" "limit \<le> 2 ^ 31"
  shows "\<exists>r rnd'. rnd_ref p rnd limit = Inr (r, rnd')"
proof -
  from assms have "- int (prog_in_cnt p) \<le> int limit - 1" by linarith
  from Random_get_defined[OF this, of rnd] show ?thesis
    using assms by (auto simp: rnd_ref_def Ref_rnd_small)
qed

lemma mutate_defined:
  assumes v: "valid_program p" and ne: "prog_ops p \<noteq> []"
    and sz: "length (prog_ops p) \<le> 2 ^ 31" "prog_in_cnt p \<le> 2 ^ 31"
      "length (entries (prog_repo p)) \<le> 2 ^ 31"
  shows "\<exists>p' rnd'. mutate p rnd = Inr (p', rnd')"
proof -
  let ?n = "length (prog_ops p)"
  from ne have n: "1 \<le> ?n" by (cases "prog_ops p") auto
  with sz have hi: "size_to_int (size_dec ?n) = int ?n - 1"
    by (simp add: size_to_int_size_dec_small)
  from n have "0 \<le> int ?n - 1" by linarith
  from Random_get_defined[OF this, of rnd] hi
  obtain v rnd1 where g1: "Random_get rnd 0 (size_to_int (size_dec ?n)) = Inr (v, rnd1)"
    by auto
  from Random_get_range[OF g1] hi have vr: "0 \<le> v" "v < int ?n" by auto
  with sz have vw: "size_wrap v = nat v" by (simp add: size_wrap_id)
  with vr have idx: "size_wrap v < ?n" by simp
  obtain s rnd2 where g2: "Random_get rnd1 0 2 = Inr (s, rnd2)"
    using Random_get_defined[of 0 2 rnd1] by auto
  from Random_get_range[OF g2] have sr: "0 \<le> s" "s \<le> 2" by auto
  then have sw: "size_wrap s = nat s" by (simp add: size_wrap_id)
  from v have repo: "repo_ok (prog_repo p)" by (simp add: valid_program_iff)
  obtain c rnd3 where g3: "rnd_op p rnd2 = Inr (c, rnd3)"
    using rnd_op_defined[OF repo sz(3), of rnd2] by auto
  from idx sz have "size_wrap v \<le> 2 ^ 31" by simp
  with valid_program_in_cnt[OF v ne] sz(2)
  obtain r rnd4 where g4: "rnd_ref p rnd2 (size_wrap v) = Inr (r, rnd4)"
    using rnd_ref_defined[of p "size_wrap v" rnd2] by auto
  from sr sw consider "size_wrap s = 0" | "size_wrap s = 1" | "size_wrap s = 2"
    by (cases "s = 0"; cases "s = 1"; cases "s = 2") auto
  then show ?thesis
    by cases (simp_all add: mutate_def g1 idx g2 g3 g4 Let_def)
qed

lemma example_program_valid: "valid_program example_program"
  by (simp add: valid_program_def example_program_def Program_new_def slot0_ops_def
      example_repo_def repo_ok_def entries_my_repo max_op_my_repo op_ok_def ref_ok_def)

lemma example_mutate:
  "mutate example_program example_rnd = Inr (example_mutant, example_rnd\<lparr>pos := 3\<rparr>)"
  by (simp add: mutate_def example_program_def example_mutant_def example_rnd_def
      Program_new_def slot0_ops_def Random_get_def rnd_ref_def Ref_rnd_def
      size_to_int_size_dec_small size_to_int_size_neg_small size_wrap_def Let_def)

text \<open>
  Claim C2.  Starting from a valid program, for every state of the random stream,
  the program that \<open>mutate\<close> returns is valid again: each operand of each operation
  is an input in \<open>0 .. in_cnt - 1\<close> or an operation at a strictly earlier position
  (and each code is in the catalog).  The call returns whenever the program is not
  empty and the sizes fit an \<open>int\<close>.  The reason is the random \<open>Ref\<close> constructor:
  called with \<open>in_cnt\<close> and the mutated position as limit it asks the generator for a
  value in the closed range from \<open>- in_cnt\<close> to \<open>limit - 1\<close>, so every reference it
  returns lies in \<open>{- in_cnt .. - 1} \<union> {0 .. limit - 1}\<close>.
\<close>

theorem mutate_preserves_validity:
  assumes "valid_program p"
  shows "(\<forall>p' rnd'. mutate p rnd = Inr (p', rnd') \<longrightarrow> valid_program p') \<and>
         (prog_ops p \<noteq> [] \<and> length (prog_ops p) \<le> 2 ^ 31 \<and> prog_in_cnt p \<le> 2 ^ 31 \<and>
          length (entries (prog_repo p)) \<le> 2 ^ 31 \<longrightarrow>
            (\<exists>p' rnd'. mutate p rnd = Inr (p', rnd'))) \<and>
         (\<forall>limit r rnd'. Ref_rnd rnd (prog_in_cnt p) limit = Inr (r, rnd') \<longrightarrow>
            idx r \<in> {- int (prog_in_cnt p) .. - 1} \<union> {0 .. int limit - 1}) \<and>
         (\<forall>limit. prog_in_cnt p \<le> 2 ^ 31 \<and> limit \<le> 2 ^ 31 \<longrightarrow>
            Ref_rnd rnd (prog_in_cnt p) limit =
              (case Random_get rnd (- int (prog_in_cnt p)) (int limit - 1) of
                 Inl e \<Rightarrow> Inl e
               | Inr (v, rnd') \<Rightarrow> Inr (Ref v, rnd')))"
proof (intro conjI allI impI)
  fix p' rnd'
  assume "mutate p rnd = Inr (p', rnd')"
  with assms show "valid_program p'" by (rule mutate_valid)
next
  assume "prog_ops p \<noteq> [] \<and> length (prog_ops p) \<le> 2 ^ 31 \<and> prog_in_cnt p \<le> 2 ^ 31 \<and>
          length (entries (prog_repo p)) \<le> 2 ^ 31"
  with assms show "\<exists>p' rnd'. mutate p rnd = Inr (p', rnd')"
    by (intro mutate_defined) simp_all
next
  fix limit :: nat and r rnd'
  assume "Ref_rnd rnd (prog_in_cnt p) limit = Inr (r, rnd')"
  from Ref_rnd_ok[OF this]
  show "idx r \<in> {- int (prog_in_cnt p) .. - 1} \<union> {0 .. int limit - 1}"
    by (auto simp: ref_ok_def)
next
  fix limit :: nat
  assume "prog_in_cnt p \<le> 2 ^ 31 \<and> limit \<le> 2 ^ 31"
  then show "Ref_rnd rnd (prog_in_cnt p) limit =
              (case Random_get rnd (- int (prog_in_cnt p)) (int limit - 1) of
                 Inl e \<Rightarrow> Inl e
               | Inr (v, rnd') \<Rightarrow> Inr (Ref v, rnd'))"
    by (simp add: Ref_rnd_small)
qed

theorem mutate_preserves_validity_witness:
  "valid_program example_program \<and>
   mutate example_program example_rnd = Inr (example_mutant, example_rnd\<lparr>pos := 3\<rparr>) \<and>
   valid_program example_mutant \<and>
   prog_ops example_mutant ! 2 = \<lparr>code = 3, lhs = Ref (- 2), rhs = Ref 1\<rparr>"
proof -
  from mutate_preserves_validity[OF example_program_valid, of example_rnd] example_mutate
  have "valid_program example_mutant" by blast
  with example_program_valid example_mutate show ?thesis
    by (simp add: example_mutant_def)
qed

text \<open>
  Claim C9, as the code has it.  A call of \<open>mutate\<close> that returns has assigned
  exactly one of the three fields (code, left operand, right operand) of exactly one
  operation a freshly drawn value: the returned program is the old one with the
  operation at one position replaced by a copy in which that single field is set to
  the value that \<open>rnd_op\<close> (for the code) or \<open>rnd_ref\<close> with the position as limit
  (for an operand) has just drawn.  The drawn value may be the one the field already holds, so the
  program may come back unchanged.  The length of the operation list, every other
  operation, the two other fields of the mutated operation, the stored Stats, the
  input count and the output count (as well as the catalog and the best slot) are
  unchanged.
\<close>

theorem mutate_frame:
  assumes "mutate p rnd = Inr (p', rnd')"
  shows "\<exists>i<length (prog_ops p). \<exists>op'.
           ((\<exists>c rnd2. rnd_op p rnd2 = Inr (c, rnd') \<and>
                      op' = (prog_ops p ! i)\<lparr>code := c\<rparr>) \<or>
            (\<exists>l rnd2. rnd_ref p rnd2 i = Inr (l, rnd') \<and>
                      op' = (prog_ops p ! i)\<lparr>lhs := l\<rparr>) \<or>
            (\<exists>r rnd2. rnd_ref p rnd2 i = Inr (r, rnd') \<and>
                      op' = (prog_ops p ! i)\<lparr>rhs := r\<rparr>)) \<and>
           p' = p\<lparr>prog_ops := (prog_ops p)[i := op']\<rparr> \<and>
           length (prog_ops p') = length (prog_ops p) \<and>
           (\<forall>j<length (prog_ops p). j \<noteq> i \<longrightarrow> prog_ops p' ! j = prog_ops p ! j) \<and>
           prog_stats p' = prog_stats p \<and> prog_in_cnt p' = prog_in_cnt p \<and>
           prog_out_cnt p' = prog_out_cnt p \<and> prog_repo p' = prog_repo p \<and>
           best_slot p' = best_slot p"
  using assms
proof (cases rule: mutate_cases)
  case (1 i c rnd2)
  then show ?thesis
    by (intro exI[of _ i] conjI exI[of _ "(prog_ops p ! i)\<lparr>code := c\<rparr>"]) auto
next
  case (2 i l rnd2)
  then show ?thesis
    by (intro exI[of _ i] conjI exI[of _ "(prog_ops p ! i)\<lparr>lhs := l\<rparr>"]) auto
next
  case (3 i r rnd2)
  then show ?thesis
    by (intro exI[of _ i] conjI exI[of _ "(prog_ops p ! i)\<lparr>rhs := r\<rparr>"]) auto
qed


theorem mutate_frame_witness:
  "mutate example_program example_rnd = Inr (example_mutant, example_rnd\<lparr>pos := 3\<rparr>) \<and>
   (\<exists>i<length (prog_ops example_program). \<exists>op'.
      ((\<exists>c. op' = (prog_ops example_program ! i)\<lparr>code := c\<rparr>) \<or>
       (\<exists>l. op' = (prog_ops example_program ! i)\<lparr>lhs := l\<rparr>) \<or>
       (\<exists>r. op' = (prog_ops example_program ! i)\<lparr>rhs := r\<rparr>)) \<and>
      example_mutant = example_program\<lparr>prog_ops := (prog_ops example_program)[i := op']\<rparr>) \<and>
   prog_stats example_mutant = prog_stats example_program"
  using mutate_frame[OF example_mutate] example_mutate by blast

theorem mutate_unchanged_counterexample:
  "mutate example_program repeating_rnd = Inr (example_program, repeating_rnd\<lparr>pos := 3\<rparr>)"
  by (simp add: mutate_def example_program_def repeating_rnd_def Program_new_def slot0_ops_def
      Random_get_def rnd_op_def size_to_int_size_dec_small size_to_int_small size_wrap_def
      Let_def example_repo_def max_op_my_repo)

section \<open>Claims about \<open>Program::execute\<close>\<close>

lemma get_value_defined:
  assumes "ref_ok (length input) (length vals) r"
  shows "\<exists>x. get_value input vals r = Inr x"
proof (cases "is_input r")
  case True
  with ref_ok_in_idx[OF assms True] show ?thesis by (simp add: get_value_def)
next
  case False
  with ref_ok_op_idx[OF assms False] show ?thesis by (simp add: get_value_def)
qed

lemma perform_defined:
  assumes "repo_ok r" "c \<le> max_op r"
  shows "\<exists>v. perform r c a b = Inr v"
proof -
  from assms(1) obtain n where n: "length (entries r) = Suc n"
    by (cases "entries r") (auto simp: repo_ok_def)
  with max_op_repo_ok[OF assms(1)] assms(2) have "c < length (entries r)" by simp
  then show ?thesis by (simp add: perform_def)
qed

lemma drop_group_step:
  assumes "length vals = m" "0 < oc" "Suc (m mod oc) = oc"
  shows "drop (m - m mod oc) vals @ [v] = drop (Suc m - oc) (vals @ [v])"
proof -
  from assms have "m - m mod oc = Suc m - oc" by linarith
  moreover from assms have "Suc m - oc \<le> length vals" by linarith
  ultimately show ?thesis by simp
qed

lemma drop_group_grow:
  assumes "length vals = m" "0 < oc" "Suc (m mod oc) \<noteq> oc"
  shows "drop (m - m mod oc) vals @ [v] = drop (Suc m - Suc m mod oc) (vals @ [v])"
proof -
  from assms have "Suc m mod oc = Suc (m mod oc)" by (simp add: mod_Suc)
  moreover have "m mod oc \<le> m" by simp
  ultimately have "Suc m - Suc m mod oc = m - m mod oc" by linarith
  moreover from assms have "m - m mod oc \<le> length vals" by simp
  ultimately show ?thesis by simp
qed

lemma execute_loop_inv:
  assumes repo: "repo_ok (prog_repo p)"
    and inp: "length input = prog_in_cnt p"
    and oc: "0 < prog_out_cnt p"
    and mult: "length (prog_ops p) mod prog_out_cnt p = 0"
  shows "prog_ops p = dn @ rest \<Longrightarrow> length vals = length dn \<Longrightarrow>
    out = drop (length dn - length dn mod prog_out_cnt p) vals \<Longrightarrow>
    result = (if rest = [] then [drop (length (prog_ops p) - prog_out_cnt p) vals] else []) \<Longrightarrow>
    (\<forall>j<length rest. op_ok (prog_repo p) (prog_in_cnt p) (length dn + j) (rest ! j)) \<Longrightarrow>
    \<exists>vs out'.
      execute_loop p input rest (result, out, vals) =
        Inr ([drop (length (prog_ops p) - prog_out_cnt p) vs], out', vs) \<and>
      length vs = length (prog_ops p) \<and> take (length dn) vs = vals \<and>
      (\<forall>i. length dn \<le> i \<and> i < length (prog_ops p) \<longrightarrow>
         (\<exists>l r. get_value input (take i vs) (lhs (prog_ops p ! i)) = Inr l \<and>
                get_value input (take i vs) (rhs (prog_ops p ! i)) = Inr r \<and>
                perform (prog_repo p) (code (prog_ops p ! i)) l r = Inr (vs ! i)))"
proof (induction rest arbitrary: dn vals out result)
  case Nil
  then show ?case by auto
next
  case (Cons op rest)
  let ?n = "length (prog_ops p)" and ?oc = "prog_out_cnt p" and ?m = "length dn"
  from Cons.prems(1) have m_lt: "?m < ?n" and op_at: "prog_ops p ! ?m = op"
    and n_eq: "?n = Suc ?m + length rest"
    by simp_all
  from Cons.prems(5) have "op_ok (prog_repo p) (prog_in_cnt p) (?m + 0) ((op # rest) ! 0)"
    by blast
  then have opok: "code op \<le> max_op (prog_repo p)"
    "ref_ok (length input) (length vals) (lhs op)"
    "ref_ok (length input) (length vals) (rhs op)"
    by (simp_all add: op_ok_def inp Cons.prems(2))
  from get_value_defined[OF opok(2)] obtain l where l: "get_value input vals (lhs op) = Inr l"
    by blast
  from get_value_defined[OF opok(3)] obtain r where r: "get_value input vals (rhs op) = Inr r"
    by blast
  from perform_defined[OF repo opok(1)] obtain v
    where v: "perform (prog_repo p) (code op) l r = Inr v"
    by blast
  let ?vals' = "vals @ [v]" and ?dn' = "dn @ [op]"
  have len_out: "length out = ?m mod ?oc"
    using Cons.prems(2,3) by simp
  have split': "prog_ops p = ?dn' @ rest" using Cons.prems(1) by simp
  have len': "length ?vals' = length ?dn'" using Cons.prems(2) by simp
  have ok': "\<forall>j<length rest. op_ok (prog_repo p) (prog_in_cnt p) (length ?dn' + j) (rest ! j)"
  proof (intro allI impI)
    fix j assume "j < length rest"
    then have "op_ok (prog_repo p) (prog_in_cnt p) (?m + Suc j) ((op # rest) ! Suc j)"
      using Cons.prems(5) by (metis Suc_less_eq length_Cons)
    then show "op_ok (prog_repo p) (prog_in_cnt p) (length ?dn' + j) (rest ! j)" by simp
  qed
  define out2 where "out2 = (if Suc (?m mod ?oc) = ?oc then [] else out @ [v])"
  define result2 where "result2 =
    (if Suc (?m mod ?oc) = ?oc \<and> Suc ?m = ?n then [out @ [v]] else [])"
  have step: "execute_loop p input (op # rest) (result, out, vals) =
      execute_loop p input rest (result2, out2, ?vals')"
    using Cons.prems(2,4) len_out
    by (simp add: l r v Let_def out2_def result2_def)
  have out2: "out2 = drop (length ?dn' - length ?dn' mod ?oc) ?vals'"
  proof (cases "Suc (?m mod ?oc) = ?oc")
    case True
    then have "Suc ?m mod ?oc = 0" by (simp add: mod_Suc)
    with True Cons.prems(2) show ?thesis by (simp add: out2_def)
  next
    case False
    with drop_group_grow[OF Cons.prems(2) oc False, of v] Cons.prems(3)
    show ?thesis by (simp add: out2_def)
  qed
  have result2: "result2 = (if rest = [] then [drop (?n - ?oc) ?vals'] else [])"
  proof (cases "rest = []")
    case True
    with n_eq have last: "Suc ?m = ?n" by simp
    with mult have "Suc ?m mod ?oc = 0" by simp
    with oc have full: "Suc (?m mod ?oc) = ?oc"
      by (metis mod_Suc nat.distinct(1))
    from drop_group_step[OF Cons.prems(2) oc full, of v] Cons.prems(3) last True full
    show ?thesis by (simp add: result2_def)
  next
    case False
    with n_eq have "Suc ?m \<noteq> ?n" by (cases rest) auto
    with False show ?thesis by (simp add: result2_def)
  qed
  from Cons.IH[OF split' len' out2 result2 ok']
  obtain vs out' where
    run: "execute_loop p input rest (result2, out2, ?vals') = Inr ([drop (?n - ?oc) vs], out', vs)"
    and lvs: "length vs = ?n"
    and tk: "take (length ?dn') vs = ?vals'"
    and later: "\<forall>i. length ?dn' \<le> i \<and> i < ?n \<longrightarrow>
         (\<exists>l r. get_value input (take i vs) (lhs (prog_ops p ! i)) = Inr l \<and>
                get_value input (take i vs) (rhs (prog_ops p ! i)) = Inr r \<and>
                perform (prog_repo p) (code (prog_ops p ! i)) l r = Inr (vs ! i))"
    by blast
  from tk have tk_m: "take ?m vs = vals"
    by (metis Cons.prems(2) append_eq_conv_conj length_append_singleton take_Suc_conv_app_nth
        butlast_snoc butlast_take diff_Suc_1 lvs m_lt less_or_eq_imp_le Suc_leI)
  from tk have at_m: "vs ! ?m = v"
    by (metis Cons.prems(2) length_append_singleton lessI nth_append_length nth_take)
  have here: "\<exists>l r. get_value input (take ?m vs) (lhs (prog_ops p ! ?m)) = Inr l \<and>
                get_value input (take ?m vs) (rhs (prog_ops p ! ?m)) = Inr r \<and>
                perform (prog_repo p) (code (prog_ops p ! ?m)) l r = Inr (vs ! ?m)"
    using l r v by (simp add: tk_m at_m op_at)
  have all: "\<forall>i. ?m \<le> i \<and> i < ?n \<longrightarrow>
         (\<exists>l r. get_value input (take i vs) (lhs (prog_ops p ! i)) = Inr l \<and>
                get_value input (take i vs) (rhs (prog_ops p ! i)) = Inr r \<and>
                perform (prog_repo p) (code (prog_ops p ! i)) l r = Inr (vs ! i))"
  proof (intro allI impI)
    fix i assume i: "?m \<le> i \<and> i < ?n"
    show "\<exists>l r. get_value input (take i vs) (lhs (prog_ops p ! i)) = Inr l \<and>
                get_value input (take i vs) (rhs (prog_ops p ! i)) = Inr r \<and>
                perform (prog_repo p) (code (prog_ops p ! i)) l r = Inr (vs ! i)"
    proof (cases "i = ?m")
      case True
      with here show ?thesis by simp
    next
      case False
      with i have "length ?dn' \<le> i \<and> i < ?n" by simp
      with later show ?thesis by blast
    qed
  qed
  from step run lvs tk_m all show ?case by auto
qed

text \<open>
  Claim C1.  For every valid program whose operation list is not empty and has a
  length that is a multiple of \<open>out_cnt\<close>, and every input vector of length \<open>in_cnt\<close>,
  \<open>execute\<close> returns a result with exactly one output vector.  With \<open>vs\<close> the values
  of all operations in program order (each computed by \<open>perform\<close> from operands
  resolved against the input or the values before it), that vector is the last
  \<open>out_cnt\<close> entries of \<open>vs\<close>, the values of the final slot, however many slots the
  program has.  \<open>num_alternatives\<close> is 1.
\<close>

theorem execute_returns_last_slot:
  assumes "valid_program p" "length input = prog_in_cnt p"
    and "prog_ops p \<noteq> []" "length (prog_ops p) = k * prog_out_cnt p"
  shows "\<exists>vs. length vs = length (prog_ops p) \<and>
           (\<forall>i<length (prog_ops p).
              \<exists>l r. get_value input (take i vs) (lhs (prog_ops p ! i)) = Inr l \<and>
                    get_value input (take i vs) (rhs (prog_ops p ! i)) = Inr r \<and>
                    perform (prog_repo p) (code (prog_ops p ! i)) l r = Inr (vs ! i)) \<and>
           execute p input = Inr [drop (length (prog_ops p) - prog_out_cnt p) vs] \<and>
           num_alternatives p = 1"
proof -
  from assms(3,4) have oc: "0 < prog_out_cnt p"
    by (cases "prog_out_cnt p") auto
  from assms(4) have mult: "length (prog_ops p) mod prog_out_cnt p = 0" by simp
  from assms(1) have repo: "repo_ok (prog_repo p)"
    and ok: "\<forall>j<length (prog_ops p).
                op_ok (prog_repo p) (prog_in_cnt p) (length ([]::Op list) + j) (prog_ops p ! j)"
    by (simp_all add: valid_program_iff)
  have res: "([]::Result) =
      (if prog_ops p = [] then [drop (length (prog_ops p) - prog_out_cnt p) []] else [])"
    using assms(3) by simp
  from execute_loop_inv[OF repo assms(2) oc mult, of "[]" "prog_ops p" "[]" "[]" "[]"] res ok
  obtain vs out' where
    run: "execute_loop p input (prog_ops p) ([], [], []) =
            Inr ([drop (length (prog_ops p) - prog_out_cnt p) vs], out', vs)"
    and lvs: "length vs = length (prog_ops p)"
    and all: "\<forall>i. length ([]::Op list) \<le> i \<and> i < length (prog_ops p) \<longrightarrow>
         (\<exists>l r. get_value input (take i vs) (lhs (prog_ops p ! i)) = Inr l \<and>
                get_value input (take i vs) (rhs (prog_ops p ! i)) = Inr r \<and>
                perform (prog_repo p) (code (prog_ops p ! i)) l r = Inr (vs ! i))"
    by auto
  from run have "execute p input = Inr [drop (length (prog_ops p) - prog_out_cnt p) vs]"
    by (simp add: execute_def)
  with lvs all show ?thesis
    by (intro exI[of _ vs]) (simp add: num_alternatives_def)
qed


lemma example_execute:
  "execute (example_program\<lparr>prog_out_cnt := 1\<rparr>) [1, 2, 3] = Inr [[8]]"
  by (simp add: execute_def example_program_def Program_new_def slot0_ops_def example_repo_def
      get_value_def perform_def entries_my_repo my_sub_def my_add_def my_mul_def Let_def)

theorem execute_returns_last_slot_witness:
  "valid_program (example_program\<lparr>prog_out_cnt := 1\<rparr>) \<and>
   length [1, 2, 3 :: Value] = prog_in_cnt (example_program\<lparr>prog_out_cnt := 1\<rparr>) \<and>
   prog_ops (example_program\<lparr>prog_out_cnt := 1\<rparr>) \<noteq> [] \<and>
   length (prog_ops (example_program\<lparr>prog_out_cnt := 1\<rparr>)) =
     3 * prog_out_cnt (example_program\<lparr>prog_out_cnt := 1\<rparr>) \<and>
   execute (example_program\<lparr>prog_out_cnt := 1\<rparr>) [1, 2, 3] = Inr [[8]] \<and>
   (\<exists>vs. length vs = 3 \<and>
      execute (example_program\<lparr>prog_out_cnt := 1\<rparr>) [1, 2, 3] = Inr [drop 2 vs])"
proof -
  let ?p = "example_program\<lparr>prog_out_cnt := 1\<rparr>"
  have v: "valid_program ?p"
    using example_program_valid by (simp add: valid_program_def)
  have i: "length [1, 2, 3 :: Value] = prog_in_cnt ?p"
    by (simp add: example_program_def Program_new_def)
  have ne: "prog_ops ?p \<noteq> []"
    by (simp add: example_program_def slot0_ops_def)
  have k: "length (prog_ops ?p) = 3 * prog_out_cnt ?p"
    by (simp add: example_program_def slot0_ops_def)
  have lens: "length (prog_ops example_program) = 3"
    by (simp add: example_program_def slot0_ops_def)
  from execute_returns_last_slot[OF v i ne k]
  obtain vs where "length vs = length (prog_ops ?p)"
    "execute ?p [1, 2, 3] = Inr [drop (length (prog_ops ?p) - prog_out_cnt ?p) vs]"
    by blast
  then have "length vs = 3 \<and> execute ?p [1, 2, 3] = Inr [drop 2 vs]"
    by (simp add: lens)
  then have "\<exists>vs. length vs = 3 \<and> execute ?p [1, 2, 3] = Inr [drop 2 vs]" ..
  with v i ne k example_execute show ?thesis by blast
qed

section \<open>Claims about the selection in \<open>Population::tick\<close>\<close>

lemma truncate_loop_take: "truncate_loop programs apex_cnt = take apex_cnt programs"
proof (induction programs apex_cnt rule: truncate_loop.induct)
  case (1 programs apex_cnt)
  show ?case
  proof (cases "length programs > apex_cnt")
    case True
    with 1 have "truncate_loop programs apex_cnt = take apex_cnt (butlast programs)"
      by (subst truncate_loop.simps) simp
    also from True have "\<dots> = take apex_cnt programs"
      by (simp add: butlast_conv_take)
    finally show ?thesis .
  next
    case False
    then show ?thesis by (subst truncate_loop.simps) simp
  qed
qed

lemma select_index_zero: "select_index rnd 0 = Inl UndefinedBehaviour"
proof -
  have "size_to_int (size_dec 0) = - 1"
    by (simp add: size_to_int_size_dec_small)
  then show ?thesis by (simp add: select_index_def Random_get_def)
qed

lemma select_index_bound:
  assumes "select_index rnd limit = Inr (i, rnd')"
  shows "i < limit"
proof -
  let ?hi = "size_to_int (size_dec limit)"
  from assms obtain a rnd1 b where
    a: "Random_get rnd 0 ?hi = Inr (a, rnd1)" and b: "Random_get rnd1 0 ?hi = Inr (b, rnd')"
    and i: "i = size_wrap (min a b)"
    by (auto simp: select_index_def split: sum.splits)
  from Random_get_range[OF a] Random_get_range[OF b]
  have m: "0 \<le> min a b" "min a b \<le> ?hi" by auto
  with size_to_int_range[of "size_dec limit"] have "min a b < 2 ^ 64" by simp
  with m i have "i = nat (min a b)" by (simp add: size_wrap_id)
  with m size_to_int_size_dec_le[of limit] show ?thesis by linarith
qed

lemma select_index_defined:
  assumes "1 \<le> limit" "limit \<le> 2 ^ 31"
  shows "\<exists>i rnd'. select_index rnd limit = Inr (i, rnd')"
proof -
  from assms have hi: "size_to_int (size_dec limit) = int limit - 1"
    by (simp add: size_to_int_size_dec_small)
  from assms have le: "0 \<le> int limit - 1" by linarith
  from Random_get_defined[OF le, of rnd] obtain a rnd1
    where a: "Random_get rnd 0 (int limit - 1) = Inr (a, rnd1)" by blast
  from Random_get_defined[OF le, of rnd1] obtain b rnd2
    where b: "Random_get rnd1 0 (int limit - 1) = Inr (b, rnd2)" by blast
  show ?thesis by (simp add: select_index_def hi a b)
qed

lemma tick_small_population:
  assumes "1 \<le> pop_cnt (pop_params pop)" "pop_cnt (pop_params pop) < 10"
  shows "tick pop = Some (Inl UndefinedBehaviour)"
proof -
  from assms have apex: "pop_cnt (pop_params pop) div 10 = 0" by simp
  let ?pop2 = "pop\<lparr>pop_gen := size_add (pop_gen pop) 1, pop_programs := []\<rparr>"
  have "repopulate_loop ?pop2 0 = Some (Inl UndefinedBehaviour)"
    using assms(1)
    by (subst repopulate_loop.simps) (simp add: select_def select_index_zero)
  then show ?thesis
    by (simp add: tick_def Let_def apex truncate_loop_take)
qed

lemma tick_empty_population:
  assumes "pop_cnt (pop_params pop) = 0"
  shows "tick pop =
    Some (Inr (pop\<lparr>pop_gen := size_add (pop_gen pop) 1, pop_programs := []\<rparr>))"
proof -
  let ?pop2 = "pop\<lparr>pop_gen := size_add (pop_gen pop) 1, pop_programs := []\<rparr>"
  have "repopulate_loop ?pop2 0 = Some (Inr ?pop2)"
    using assms by (subst repopulate_loop.simps) simp
  then show ?thesis
    using assms by (simp add: tick_def Let_def truncate_loop_take std_sort_def strict_weak_on_def)
qed

text \<open>
  Claim C10, as the code has it.  \<open>tick\<close> computes the elite count as the integer
  division \<open>pop_cnt / 10\<close>.  For every population with \<open>1 <= pop_cnt < 10\<close> the
  truncation loop empties the population and the parent selection then calls
  \<open>select\<close> with limit 0, which draws from the empty range \<open>[0, -1]\<close>: the tick has no
  defined result.  With \<open>pop_cnt = 0\<close> no parent is ever selected, and \<open>tick\<close> only
  advances the generation counter and leaves an empty population.  With
  \<open>pop_cnt >= 10\<close> every index that \<open>select\<close> draws lies within the elite prefix, and
  the draw is defined when the elite count fits an \<open>int\<close>.
\<close>

theorem tick_selection_range:
  "(1 \<le> pop_cnt (pop_params pop) \<and> pop_cnt (pop_params pop) < 10 \<longrightarrow>
      truncate_loop (pop_programs pop) (pop_cnt (pop_params pop) div 10) = [] \<and>
      select [] rnd (pop_cnt (pop_params pop) div 10) = Inl UndefinedBehaviour \<and>
      tick pop = Some (Inl UndefinedBehaviour)) \<and>
   (pop_cnt (pop_params pop) = 0 \<longrightarrow>
      tick pop = Some (Inr (pop\<lparr>pop_gen := size_add (pop_gen pop) 1, pop_programs := []\<rparr>))) \<and>
   (10 \<le> pop_cnt (pop_params pop) \<longrightarrow>
      (\<forall>i rnd'. select_index rnd (pop_cnt (pop_params pop) div 10) = Inr (i, rnd') \<longrightarrow>
                i < pop_cnt (pop_params pop) div 10) \<and>
      (pop_cnt (pop_params pop) div 10 \<le> 2 ^ 31 \<longrightarrow>
         (\<exists>i rnd'. select_index rnd (pop_cnt (pop_params pop) div 10) = Inr (i, rnd'))))"
proof (intro conjI impI allI)
  assume a: "1 \<le> pop_cnt (pop_params pop) \<and> pop_cnt (pop_params pop) < 10"
  then have apex: "pop_cnt (pop_params pop) div 10 = 0" by simp
  show "truncate_loop (pop_programs pop) (pop_cnt (pop_params pop) div 10) = []"
    by (simp add: truncate_loop_take apex)
  show "select [] rnd (pop_cnt (pop_params pop) div 10) = Inl UndefinedBehaviour"
    by (simp add: apex select_def select_index_zero)
  from a show "tick pop = Some (Inl UndefinedBehaviour)"
    by (intro tick_small_population) simp_all
next
  assume "pop_cnt (pop_params pop) = 0"
  then show "tick pop =
    Some (Inr (pop\<lparr>pop_gen := size_add (pop_gen pop) 1, pop_programs := []\<rparr>))"
    by (rule tick_empty_population)
next
  fix i rnd'
  assume "select_index rnd (pop_cnt (pop_params pop) div 10) = Inr (i, rnd')"
  then show "i < pop_cnt (pop_params pop) div 10" by (rule select_index_bound)
next
  assume "10 \<le> pop_cnt (pop_params pop)" "pop_cnt (pop_params pop) div 10 \<le> 2 ^ 31"
  then show "\<exists>i rnd'. select_index rnd (pop_cnt (pop_params pop) div 10) = Inr (i, rnd')"
    by (intro select_index_defined) simp_all
qed

theorem tick_selection_range_witness:
  "1 \<le> pop_cnt (pop_params (example_population 5)) \<and>
   pop_cnt (pop_params (example_population 5)) < 10 \<and>
   tick (example_population 5) = Some (Inl UndefinedBehaviour) \<and>
   10 \<le> pop_cnt (pop_params (example_population 30)) \<and>
   select_index example_rnd (pop_cnt (pop_params (example_population 30)) div 10)
     = Inr (1, example_rnd\<lparr>pos := 2\<rparr>) \<and>
   (1::nat) < pop_cnt (pop_params (example_population 30)) div 10"
proof -
  have five: "1 \<le> pop_cnt (pop_params (example_population 5))"
    "pop_cnt (pop_params (example_population 5)) < 10"
    by (simp_all add: example_population_def)
  have thirty: "10 \<le> pop_cnt (pop_params (example_population 30))"
    by (simp add: example_population_def)
  have sel: "select_index example_rnd (pop_cnt (pop_params (example_population 30)) div 10)
     = Inr (1, example_rnd\<lparr>pos := 2\<rparr>)"
    by (simp add: example_population_def select_index_def size_to_int_size_dec_small
        Random_get_def example_rnd_def size_wrap_def)
  from tick_selection_range[of "example_population 5" example_rnd] five
  have t: "tick (example_population 5) = Some (Inl UndefinedBehaviour)" by blast
  from tick_selection_range[of "example_population 30" example_rnd] thirty sel
  have "(1::nat) < pop_cnt (pop_params (example_population 30)) div 10" by blast
  with five thirty sel t show ?thesis by blast
qed

theorem tick_empty_population_counterexample:
  "pop_cnt (pop_params (example_population 0)) < 10 \<and>
   tick (example_population 0) = Some (Inr ((example_population 0)\<lparr>pop_gen := 1\<rparr>))"
  by (simp add: tick_empty_population example_population_def size_add_def)

section \<open>The Stats order and the sort\<close>












lemma std_sort_Inr: "std_sort ps = Inr qs \<Longrightarrow> qs = insertion_sort ps"
  by (auto simp: std_sort_def split: if_splits)

section \<open>Fitness evaluation\<close>



section \<open>The loops of \<open>Population::grow\<close> and \<open>Population::tick\<close>\<close>





section \<open>A tick returns\<close>









lemma program_ok_stats [simp]:
  "program_ok (p\<lparr>best_slot := s, prog_stats := st\<rparr>) = program_ok p"
  "program_ok (reborn p g) = program_ok p"
  by (simp_all add: program_ok_def valid_program_def reborn_def)






section \<open>Growing returns\<close>




section \<open>An example run of \<open>tick\<close>\<close>















section \<open>Example runs of \<open>grow\<close>\<close>



















section \<open>Tokens of a rendered string\<close>

lemma tokens_from_plain:
  "list_all (\<lambda>c. \<not> is_delim c) xs \<Longrightarrow> tokens_from cur (xs @ ys) = tokens_from (cur @ xs) ys"
  by (induction xs arbitrary: cur) simp_all

lemma tokens_from_delim:
  "is_delim d \<Longrightarrow> tokens_from cur (xs @ d # ys) = tokens_from cur xs @ tokens ys"
  by (induction xs arbitrary: cur) (simp_all add: tokens_def)

lemma tokens_plain:
  "list_all (\<lambda>c. \<not> is_delim c) xs \<Longrightarrow> xs \<noteq> [] \<Longrightarrow> tokens xs = [xs]"
  using tokens_from_plain[of xs "[]" "[]"] by (simp add: tokens_def)

lemma tokens_delim: "is_delim d \<Longrightarrow> tokens (xs @ d # ys) = tokens xs @ tokens ys"
  using tokens_from_delim[of d "[]" xs ys] by (simp add: tokens_def)

lemma tokens_call:
  assumes "list_all (\<lambda>c. \<not> is_delim c) nm" "nm \<noteq> []"
  shows "tokens (nm @ ''('' @ l @ '','' @ rr @ '')'') = nm # tokens l @ tokens rr"
proof -
  have d: "is_delim CHR ''(''" "is_delim CHR '',''" "is_delim CHR '')''"
    by (simp_all add: is_delim_def)
  have "tokens (nm @ ''('' @ l @ '','' @ rr @ '')'') =
        tokens (nm @ CHR ''('' # (l @ CHR '','' # (rr @ CHR '')'' # [])))" by simp
  also have "\<dots> = tokens nm @ tokens l @ tokens rr @ tokens []"
    by (simp only: tokens_delim[OF d(1)] tokens_delim[OF d(2)] tokens_delim[OF d(3)])
  also have "\<dots> = nm # tokens l @ tokens rr"
    using assms by (simp add: tokens_plain) (simp add: tokens_def)
  finally show ?thesis .
qed

lemma count_nodes_append: "count_nodes r (a @ b) = count_nodes r a + count_nodes r b"
  by (simp add: count_nodes_def)

lemma show_nat_digits: "show_nat n \<noteq> [] \<and> list_all is_digit (show_nat n)"
proof (induction n rule: show_nat.induct)
  case (1 n)
  have digit: "is_digit (''0123456789'' ! k)" if "k < 10" for k
  proof -
    from that have "k < length ''0123456789''" by simp
    then have "''0123456789'' ! k \<in> set ''0123456789''" by (rule nth_mem)
    then show ?thesis unfolding is_digit_def .
  qed
  show ?case
  proof (cases "n < 10")
    case True
    with digit[of n] show ?thesis by (subst (1 2) show_nat.simps) simp
  next
    case False
    with 1 digit[of "n mod 10"] show ?thesis by (subst (1 2) show_nat.simps) simp
  qed
qed

lemma digit_plain: "is_digit c \<Longrightarrow> \<not> is_delim c"
  by (auto simp: is_digit_def is_delim_def)

lemma input_string_count:
  assumes "names_ok r"
  shows "derived_size r (''i'' @ show_nat k) = 1"
proof -
  let ?t = "''i'' @ show_nat k"
  from show_nat_digits[of k] have dig: "show_nat k \<noteq> []" "list_all is_digit (show_nat k)"
    by simp_all
  then have "list_all (\<lambda>c. \<not> is_delim c) (show_nat k)"
    by (auto simp: list_all_iff dest: digit_plain)
  then have "list_all (\<lambda>c. \<not> is_delim c) ?t" by (simp add: is_delim_def)
  then have t: "tokens ?t = [?t]" by (simp add: tokens_plain)
  from dig have inp: "is_input_token ?t" by (simp add: is_input_token_def)
  with assms have "\<not> is_op_token r ?t"
    by (auto simp: is_op_token_def names_ok_def list_all_iff)
  with inp t show ?thesis by (simp add: derived_size_def count_nodes_def)
qed

lemma call_string_count:
  assumes "names_ok r" "c < length (entries r)"
  shows "derived_size r (entry_name (entries r ! c) @ ''('' @ l @ '','' @ rr @ '')'') =
         1 + derived_size r l + derived_size r rr"
proof -
  let ?nm = "entry_name (entries r ! c)"
  from assms have "entries r ! c \<in> set (entries r)" by simp
  with assms(1) have nm: "?nm \<noteq> []" "list_all (\<lambda>c. \<not> is_delim c) ?nm" "\<not> is_input_token ?nm"
    by (auto simp: names_ok_def list_all_iff)
  from assms(2) have "is_op_token r ?nm" by (simp add: is_op_token_def)
  with nm(3) have "count_nodes r [?nm] = 1" by (simp add: count_nodes_def)
  with tokens_call[OF nm(2,1), of l rr] show ?thesis
    using count_nodes_append[of r "[?nm]" "tokens l @ tokens rr"]
    by (simp add: derived_size_def count_nodes_append)
qed

section \<open>Sizes without and with wrap-around\<close>

lemma node_counts_append:
  "node_counts (xs @ ys) tab = node_counts ys (node_counts xs tab)"
  by (induction xs arbitrary: tab) simp_all

lemma length_node_counts: "length (node_counts ops tab) = length tab + length ops"
  by (induction ops arbitrary: tab) simp_all

lemma node_counts_prefix: "take (length tab) (node_counts ops tab) = tab"
proof (induction ops arbitrary: tab)
  case Nil
  show ?case by simp
next
  case (Cons op ops)
  let ?x = "if code op = 0 then node_count_get tab (lhs op)
            else 1 + node_count_get tab (lhs op) + node_count_get tab (rhs op)"
  from Cons[of "tab @ [?x]"]
  have "take (Suc (length tab)) (node_counts (op # ops) tab) = tab @ [?x]" by simp
  then have "take (length tab) (take (Suc (length tab)) (node_counts (op # ops) tab)) = tab"
    by simp
  then show ?case by (simp add: min_def)
qed

lemma node_counts_take:
  "node_counts (take k ops) tab = take (length tab + k) (node_counts ops tab)"
proof (induction ops arbitrary: tab k)
  case Nil
  then show ?case by simp
next
  case (Cons op ops)
  show ?case
  proof (cases k)
    case 0
    then show ?thesis using node_counts_prefix[of tab "op # ops"] by simp
  next
    case (Suc k')
    then show ?thesis using Cons[of k'] by simp
  qed
qed

lemma get_size_mod:
  assumes "ref_ok n_in (length tab) r"
  shows "get_size (map (\<lambda>n. n mod 2 ^ 64) tab) r = Inr (node_count_get tab r mod 2 ^ 64)"
proof (cases "is_input r")
  case True
  then show ?thesis by (simp add: get_size_def node_count_get_def)
next
  case False
  with ref_ok_op_idx[OF assms False] show ?thesis
    by (simp add: get_size_def node_count_get_def)
qed

lemma size_loop_mod:
  assumes "\<forall>j<length ops. ref_ok n_in (length tab + j) (lhs (ops ! j)) \<and>
                          ref_ok n_in (length tab + j) (rhs (ops ! j))"
  shows "size_loop ops (map (\<lambda>n. n mod 2 ^ 64) tab) =
         Inr (map (\<lambda>n. n mod 2 ^ 64) (node_counts ops tab))"
  using assms
proof (induction ops arbitrary: tab)
  case Nil
  show ?case by simp
next
  case (Cons op ops)
  from Cons.prems have r0: "ref_ok n_in (length tab) (lhs op)" "ref_ok n_in (length tab) (rhs op)"
    by auto
  let ?x = "if code op = 0 then node_count_get tab (lhs op)
            else 1 + node_count_get tab (lhs op) + node_count_get tab (rhs op)"
  have rest: "\<forall>j<length ops. ref_ok n_in (length (tab @ [?x]) + j) (lhs (ops ! j)) \<and>
                             ref_ok n_in (length (tab @ [?x]) + j) (rhs (ops ! j))"
  proof (intro allI impI)
    fix j
    assume "j < length ops"
    then have "Suc j < length (op # ops)" by simp
    with Cons.prems have "ref_ok n_in (length tab + Suc j) (lhs ((op # ops) ! Suc j)) \<and>
                          ref_ok n_in (length tab + Suc j) (rhs ((op # ops) ! Suc j))"
      by blast
    then show "ref_ok n_in (length (tab @ [?x]) + j) (lhs (ops ! j)) \<and>
               ref_ok n_in (length (tab @ [?x]) + j) (rhs (ops ! j))"
      by simp
  qed
  have step: "size_loop (op # ops) (map (\<lambda>n. n mod 2 ^ 64) tab) =
              size_loop ops (map (\<lambda>n. n mod 2 ^ 64) (tab @ [?x]))"
    using get_size_mod[OF r0(1)] get_size_mod[OF r0(2)]
    by (simp add: size_add_def mod_simps)
  show ?case
    unfolding step Cons.IH[OF rest] by simp
qed

lemma valid_program_refs:
  assumes "valid_program p" "j < length (prog_ops p)"
  shows "ref_ok (prog_in_cnt p) j (lhs (prog_ops p ! j))"
    "ref_ok (prog_in_cnt p) j (rhs (prog_ops p ! j))"
    "code (prog_ops p ! j) < length (entries (prog_repo p))"
proof -
  from assms have ok: "op_ok (prog_repo p) (prog_in_cnt p) j (prog_ops p ! j)"
    and repo: "repo_ok (prog_repo p)"
    by (simp_all add: valid_program_iff)
  from ok show "ref_ok (prog_in_cnt p) j (lhs (prog_ops p ! j))"
    "ref_ok (prog_in_cnt p) j (rhs (prog_ops p ! j))"
    by (simp_all add: op_ok_def)
  from repo have "entries (prog_repo p) \<noteq> []" by (simp add: repo_ok_def)
  then have "0 < length (entries (prog_repo p))" by (cases "entries (prog_repo p)") auto
  moreover from ok max_op_repo_ok[OF repo]
  have "code (prog_ops p ! j) \<le> length (entries (prog_repo p)) - 1"
    by (simp add: op_ok_def)
  ultimately show "code (prog_ops p ! j) < length (entries (prog_repo p))" by linarith
qed

lemma size_of_mod:
  assumes v: "valid_program p" and r: "ref_ok (prog_in_cnt p) (length (prog_ops p)) r"
  shows "size_of p r = Inr (node_count p r mod 2 ^ 64)"
proof (cases "is_input r")
  case True
  with ref_ok_assert_valid[OF r] show ?thesis
    by (simp add: size_of_def node_count_def node_count_get_def)
next
  case False
  let ?i = "op_idx r"
  let ?ops = "take (Suc ?i) (prog_ops p)"
  from ref_ok_op_idx[OF r False] have i: "?i < length (prog_ops p)" by simp
  have "\<forall>j<length ?ops. ref_ok (prog_in_cnt p) (length ([]::nat list) + j) (lhs (?ops ! j)) \<and>
                          ref_ok (prog_in_cnt p) (length ([]::nat list) + j) (rhs (?ops ! j))"
    using valid_program_refs(1,2)[OF v] i by simp
  from size_loop_mod[OF this]
  have sl: "size_loop ?ops [] = Inr (map (\<lambda>n. n mod 2 ^ 64) (node_counts ?ops []))"
    by simp
  have len: "length (node_counts ?ops []) = Suc ?i"
    using i by (simp add: length_node_counts)
  then have ne: "node_counts ?ops [] \<noteq> []" by auto
  have "last (map (\<lambda>n. n mod 2 ^ 64) (node_counts ?ops [])) =
        node_counts ?ops [] ! ?i mod 2 ^ 64"
    using ne len by (simp add: last_map last_conv_nth)
  also have "node_counts ?ops [] ! ?i = node_counts (prog_ops p) [] ! ?i"
    by (simp add: node_counts_take)
  finally have "last (map (\<lambda>n. n mod 2 ^ 64) (node_counts ?ops [])) =
      node_count p r mod 2 ^ 64"
    using False by (simp add: node_count_def node_count_get_def)
  with False ref_ok_assert_valid[OF r] sl show ?thesis
    by (simp add: size_of_def)
qed

lemma node_count_get_take:
  assumes "ref_ok n_in i r" "i \<le> length tab"
  shows "node_count_get (take i tab) r = node_count_get tab r"
proof (cases "is_input r")
  case True
  then show ?thesis by (simp add: node_count_get_def)
next
  case False
  with ref_ok_op_idx[OF assms(1) False] assms(2) show ?thesis
    by (simp add: node_count_get_def)
qed

lemma node_count_op:
  assumes v: "valid_program p" and r: "ref_ok (prog_in_cnt p) (length (prog_ops p)) r"
    and op: "\<not> is_input r"
  shows "node_count p r =
         (if code (prog_ops p ! op_idx r) = 0 then node_count p (lhs (prog_ops p ! op_idx r))
          else 1 + node_count p (lhs (prog_ops p ! op_idx r)) +
                   node_count p (rhs (prog_ops p ! op_idx r)))"
proof -
  let ?i = "op_idx r" and ?T = "node_counts (prog_ops p) []"
  let ?op = "prog_ops p ! ?i"
  from ref_ok_op_idx[OF r op] have i: "?i < length (prog_ops p)" by simp
  let ?Ti = "node_counts (take ?i (prog_ops p)) []"
  have Ti: "?Ti = take ?i ?T" by (simp add: node_counts_take)
  have lt: "length ?Ti = ?i" using i by (simp add: length_node_counts)
  from i have "take (Suc ?i) (prog_ops p) = take ?i (prog_ops p) @ [?op]"
    by (simp add: take_Suc_conv_app_nth)
  then have "node_counts (take (Suc ?i) (prog_ops p)) [] =
      ?Ti @ [if code ?op = 0 then node_count_get ?Ti (lhs ?op)
             else 1 + node_count_get ?Ti (lhs ?op) + node_count_get ?Ti (rhs ?op)]"
    by (simp add: node_counts_append)
  then have "node_counts (take (Suc ?i) (prog_ops p)) [] ! ?i =
      (if code ?op = 0 then node_count_get ?Ti (lhs ?op)
       else 1 + node_count_get ?Ti (lhs ?op) + node_count_get ?Ti (rhs ?op))"
    using lt by (simp add: nth_append)
  moreover have "node_counts (take (Suc ?i) (prog_ops p)) [] ! ?i = ?T ! ?i"
    by (simp add: node_counts_take)
  moreover from i have "?i \<le> length ?T" by (simp add: length_node_counts)
  then have "node_count_get ?Ti (lhs ?op) = node_count_get ?T (lhs ?op)"
    "node_count_get ?Ti (rhs ?op) = node_count_get ?T (rhs ?op)"
    unfolding Ti using valid_program_refs(1,2)[OF v i]
    by (simp_all add: node_count_get_take)
  ultimately show ?thesis
    using op by (simp add: node_count_def node_count_get_def[of ?T r])
qed

lemma as_string_forward:
  "is_operation r \<Longrightarrow> op_idx r < length (prog_ops p) \<Longrightarrow>
   size_of p r = Inr n \<Longrightarrow> n \<le> 9000 \<Longrightarrow>
   code (prog_ops p ! op_idx r) = 0 \<Longrightarrow>
   as_string p (lhs (prog_ops p ! op_idx r)) = res \<Longrightarrow>
   as_string p r = res"
  by (subst as_string.simps)
     (auto simp: assert_valid_def is_input_def is_operation_def Let_def)

lemma as_string_placeholder:
  "assert_valid p r (length (prog_ops p)) = Inr () \<Longrightarrow> size_of p r = Inr n \<Longrightarrow> 9000 < n \<Longrightarrow>
   as_string p r = Some (Inr (''expr('' @ show_nat n @ '' nodes)''))"
  by (subst as_string.simps) simp

lemma rendered_size:
  assumes v: "valid_program p" and nm: "names_ok (prog_repo p)"
  shows "ref_ok (prog_in_cnt p) (length (prog_ops p)) r \<Longrightarrow> node_count p r \<le> 9000 \<Longrightarrow>
         \<exists>s. as_string p r = Some (Inr s) \<and> derived_size (prog_repo p) s = node_count p r"
proof (induction "nat (idx r + 2 ^ 31)" arbitrary: r rule: less_induct)
  case less
  note r = less.prems(1) and small = less.prems(2)
  show ?case
  proof (cases "is_input r")
    case True
    from ref_ok_in_idx[OF r True] have "in_idx r < prog_in_cnt p" by simp
    with True have "as_string p r = Some (Inr (''i'' @ show_nat (in_idx r)))"
      by (rule as_string_input)
    moreover from True have "node_count p r = 1"
      by (simp add: node_count_def node_count_get_def)
    ultimately show ?thesis using input_string_count[OF nm] by simp
  next
    case False
    let ?i = "op_idx r"
    let ?op = "prog_ops p ! ?i"
    from ref_ok_op_idx[OF r False] have i: "?i = nat (idx r)" "?i < length (prog_ops p)"
      by simp_all
    from False have opr: "is_operation r" by (simp add: is_operation_def is_input_def)
    then have pos: "0 \<le> idx r" by (simp add: is_operation_def)
    note refs = valid_program_refs[OF v i(2)]
    have child: "\<exists>s. as_string p c = Some (Inr s) \<and>
                     derived_size (prog_repo p) s = node_count p c"
      if c: "ref_ok (prog_in_cnt p) ?i c" and n: "node_count p c \<le> 9000" for c
    proof -
      from c i(1) pos have "idx c < idx r" "- (2 ^ 31) \<le> idx c"
        by (simp_all add: ref_ok_def)
      then have "nat (idx c + 2 ^ 31) < nat (idx r + 2 ^ 31)" by linarith
      moreover from c i(2) have "ref_ok (prog_in_cnt p) (length (prog_ops p)) c"
        by (intro ref_ok_mono[OF c]) simp
      ultimately show ?thesis using n by (rule less.hyps)
    qed
    from small have "node_count p r mod 2 ^ 64 = node_count p r" by simp
    with size_of_mod[OF v r] have sz: "size_of p r = Inr (node_count p r)" by simp
    note rec = node_count_op[OF v r False]
    show ?thesis
    proof (cases "code ?op = 0")
      case True
      with rec have e: "node_count p r = node_count p (lhs ?op)" by simp
      with small child[OF refs(1)] obtain s where
        s: "as_string p (lhs ?op) = Some (Inr s)"
        "derived_size (prog_repo p) s = node_count p (lhs ?op)" by auto
      from as_string_forward[OF opr i(2) sz small True s(1)] s(2) e show ?thesis by simp
    next
      case False
      with rec have e: "node_count p r = 1 + node_count p (lhs ?op) + node_count p (rhs ?op)"
        by simp
      with small have "node_count p (lhs ?op) \<le> 9000" "node_count p (rhs ?op) \<le> 9000"
        by simp_all
      with child[OF refs(1)] child[OF refs(2)] obtain l rr where
        l: "as_string p (lhs ?op) = Some (Inr l)"
        "derived_size (prog_repo p) l = node_count p (lhs ?op)"
        and rr: "as_string p (rhs ?op) = Some (Inr rr)"
        "derived_size (prog_repo p) rr = node_count p (rhs ?op)" by blast
      let ?nm = "entry_name (entries (prog_repo p) ! code ?op)"
      from refs(3) have "name_of (prog_repo p) (code ?op) = Inr ?nm"
        by (simp add: name_of_def)
      from as_string_op[OF opr i(2) sz small False this l(1) rr(1)]
      have "as_string p r = Some (Inr (?nm @ ''('' @ l @ '','' @ rr @ '')''))" .
      moreover from call_string_count[OF nm refs(3), of l rr] l(2) rr(2) e
      have "derived_size (prog_repo p) (?nm @ ''('' @ l @ '','' @ rr @ '')'') = node_count p r"
        by simp
      ultimately show ?thesis by blast
    qed
  qed
qed

section \<open>A program whose size wraps around\<close>

lemma doubling_counts:
  "n \<le> 63 \<Longrightarrow>
   node_counts
     (map (\<lambda>k. \<lparr>code = 1, lhs = Ref (int k - 1), rhs = Ref (int k - 1)\<rparr>) [0..<n]) [] =
   map (\<lambda>j. 2 ^ (j + 2) - 1) [0..<n]"
proof (induction n)
  case 0
  show ?case by simp
next
  case (Suc n)
  let ?T = "map (\<lambda>j. (2::nat) ^ (j + 2) - 1) [0..<n]"
  have get: "node_count_get ?T (Ref (int n - 1)) = 2 ^ (n + 1) - 1"
  proof (cases n)
    case 0
    then show ?thesis by (simp add: node_count_get_def)
  next
    case (Suc m)
    with Suc.prems have "int m < 2 ^ 64" by simp
    then have "op_idx (Ref (int m)) = m" by simp
    with Suc show ?thesis by (simp add: node_count_get_def nth_append)
  qed
  have "(1::nat) \<le> 2 ^ (n + 1)" by simp
  then have "1 + (2 ^ (n + 1) - 1) + (2 ^ (n + 1) - 1) = (2::nat) ^ (n + 2) - 1"
    by simp
  with Suc get show ?case
    by (simp add: node_counts_append)
qed

lemma doubling_table:
  "node_counts doubling_ops [] =
   map (\<lambda>j. 2 ^ (j + 2) - 1) [0..<63] @ [18446744073709551617]"
proof -
  let ?T = "map (\<lambda>j. (2::nat) ^ (j + 2) - 1) [0..<63]"
  have T: "node_counts
     (map (\<lambda>k. \<lparr>code = 1, lhs = Ref (int k - 1), rhs = Ref (int k - 1)\<rparr>) [0..<63]) [] = ?T"
    by (rule doubling_counts) simp
  have "op_idx (Ref 62) = 62" by simp
  then have g: "node_count_get ?T (Ref 62) = 18446744073709551615"
    "node_count_get ?T (Ref (- 1)) = 1"
    by (simp_all add: node_count_get_def)
  have "node_counts doubling_ops [] =
      node_counts [\<lparr>code = 1, lhs = Ref 62, rhs = Ref (- 1)\<rparr>] ?T"
    by (simp only: doubling_ops_def node_counts_append T)
  also have "\<dots> = ?T @ [1 + node_count_get ?T (Ref 62) + node_count_get ?T (Ref (- 1))]"
    by simp
  also have "\<dots> = ?T @ [18446744073709551617]"
    by (simp only: g) simp
  finally show ?thesis .
qed

lemma doubling_node_counts:
  "node_count doubling_program (Ref 62) = 18446744073709551615"
  "node_count doubling_program (Ref 63) = 18446744073709551617"
proof -
  have i: "op_idx (Ref 62) = 62" "op_idx (Ref 63) = 63" by simp_all
  have ops: "prog_ops doubling_program = doubling_ops"
    by (simp add: doubling_program_def)
  show "node_count doubling_program (Ref 62) = 18446744073709551615"
    unfolding node_count_def node_count_get_def ops doubling_table i
    by (simp add: nth_append)
  show "node_count doubling_program (Ref 63) = 18446744073709551617"
    unfolding node_count_def node_count_get_def ops doubling_table i
    by (simp add: nth_append)
qed

lemma doubling_valid: "valid_program doubling_program"
  unfolding valid_program_iff
proof (intro conjI allI impI)
  show "repo_ok (prog_repo doubling_program)"
    by (simp add: doubling_program_def Program_new_def example_repo_def repo_ok_def
        entries_my_repo)
  fix i
  assume "i < length (prog_ops doubling_program)"
  then have "i < 63 \<or> i = 63"
    by (auto simp: doubling_program_def doubling_ops_def)
  then show "op_ok (prog_repo doubling_program) (prog_in_cnt doubling_program) i
               (prog_ops doubling_program ! i)"
  proof
    assume "i < 63"
    then show ?thesis
      by (simp add: doubling_program_def doubling_ops_def Program_new_def nth_append
          op_ok_def ref_ok_def example_repo_def max_op_my_repo)
  next
    assume "i = 63"
    then show ?thesis
      by (simp add: doubling_program_def doubling_ops_def Program_new_def nth_append
          op_ok_def ref_ok_def example_repo_def max_op_my_repo)
  qed
qed

lemma doubling_refs:
  "ref_ok (prog_in_cnt doubling_program) (length (prog_ops doubling_program)) (Ref 62)"
  "ref_ok (prog_in_cnt doubling_program) (length (prog_ops doubling_program)) (Ref 63)"
  by (simp_all add: ref_ok_def doubling_program_def doubling_ops_def Program_new_def)

lemma doubling_sizes:
  "size_of doubling_program (Ref 62) = Inr 18446744073709551615"
  "size_of doubling_program (Ref 63) = Inr 1"
  using size_of_mod[OF doubling_valid doubling_refs(1)]
    size_of_mod[OF doubling_valid doubling_refs(2)]
  by (simp_all add: doubling_node_counts)

lemma show_nat_max: "show_nat 18446744073709551615 = ''18446744073709551615''"
  by (simp add: show_nat.simps)

lemma doubling_string:
  "as_string doubling_program (Ref 63) =
     Some (Inr ''add(expr(18446744073709551615 nodes),i0)'')"
proof -
  have i: "op_idx (Ref 63) = 63" by simp
  have op: "prog_ops doubling_program ! 63 = \<lparr>code = 1, lhs = Ref 62, rhs = Ref (- 1)\<rparr>"
    by (simp add: doubling_program_def doubling_ops_def nth_append)
  have i0: "as_string doubling_program (rhs (prog_ops doubling_program ! op_idx (Ref 63))) =
      Some (Inr ''i0'')"
    unfolding i op
    by (simp add: as_string_input doubling_program_def Program_new_def show_nat.simps)
  have big: "as_string doubling_program (lhs (prog_ops doubling_program ! op_idx (Ref 63))) =
      Some (Inr ''expr(18446744073709551615 nodes)'')"
    unfolding i op
    using as_string_placeholder[OF ref_ok_assert_valid[OF doubling_refs(1)] doubling_sizes(1)]
    by (simp add: show_nat_max)
  have nm: "name_of (prog_repo doubling_program)
              (code (prog_ops doubling_program ! op_idx (Ref 63))) = Inr ''add''"
    unfolding i op
    by (simp add: doubling_program_def Program_new_def example_repo_def name_of_def
        entries_my_repo)
  have c: "code (prog_ops doubling_program ! op_idx (Ref 63)) \<noteq> 0"
    unfolding i op by simp
  have l: "op_idx (Ref 63) < length (prog_ops doubling_program)"
    unfolding i by (simp add: doubling_program_def doubling_ops_def)
  have o: "is_operation (Ref 63)" by simp
  have "(1::nat) \<le> 9000" by simp
  from as_string_op[OF o l doubling_sizes(2) this c nm big i0]
  show ?thesis by simp
qed

lemma doubling_derived:
  "derived_size (prog_repo doubling_program) ''add(expr(18446744073709551615 nodes),i0)'' = 2"
  by (simp add: derived_size_def tokens_def is_delim_def count_nodes_def is_op_token_def
      is_input_token_def is_digit_def doubling_program_def Program_new_def example_repo_def
      entries_my_repo)

lemma example_names_ok: "names_ok example_repo"
  by (simp add: names_ok_def example_repo_def entries_my_repo is_delim_def is_input_token_def)

lemma doubling_placeholder:
  "9000 < node_count doubling_program (Ref 62) mod 2 ^ 64"
  by (simp add: doubling_node_counts)

section \<open>A catalog name that reads like an input\<close>

lemma alias_entries:
  "entries alias_repo =
     [\<lparr>entry_name = ''forward'', entry_fun = forward_op, entry_cost = 0\<rparr>,
      \<lparr>entry_name = ''i0'', entry_fun = my_add, entry_cost = 1\<rparr>]"
  by (simp add: alias_repo_def OpRepo_add_def OpRepo_new_def)

lemma alias_valid: "valid_program alias_program"
  by (simp add: valid_program_def alias_program_def Program_new_def repo_ok_def alias_entries
      op_ok_def ref_ok_def max_op_def size_dec_def size_wrap_def)

lemma alias_size: "size_of alias_program (Ref 0) = Inr 3"
  by (simp add: alias_program_def Program_new_def size_of_def assert_valid_def get_size_def
      size_add_def)

lemma alias_string: "as_string alias_program (Ref 0) = Some (Inr ''i0(i0,i0)'')"
proof -
  have i: "op_idx (Ref 0) = 0" by simp
  have op: "prog_ops alias_program ! 0 = \<lparr>code = 1, lhs = Ref (- 1), rhs = Ref (- 1)\<rparr>"
    by (simp add: alias_program_def)
  have i0: "as_string alias_program (Ref (- 1)) = Some (Inr ''i0'')"
    by (simp add: as_string_input alias_program_def Program_new_def show_nat.simps)
  have nm: "name_of (prog_repo alias_program) (code (prog_ops alias_program ! op_idx (Ref 0)))
            = Inr ''i0''"
    unfolding i op
    by (simp add: alias_program_def Program_new_def name_of_def alias_entries)
  have c: "code (prog_ops alias_program ! op_idx (Ref 0)) \<noteq> 0"
    unfolding i op by simp
  have l: "op_idx (Ref 0) < length (prog_ops alias_program)"
    unfolding i by (simp add: alias_program_def)
  have o: "is_operation (Ref 0)" by simp
  have "(3::nat) \<le> 9000" by simp
  from as_string_op[OF o l alias_size this c nm] i0 show ?thesis
    by (simp add: i op)
qed

lemma alias_derived: "derived_size (prog_repo alias_program) ''i0(i0,i0)'' = 6"
  by (simp add: derived_size_def tokens_def is_delim_def count_nodes_def is_op_token_def
      is_input_token_def is_digit_def alias_program_def Program_new_def alias_entries)

text \<open>
  Claim C5, as the code has it.  \<open>size_of\<close> sums in \<open>size_t\<close>: for a valid reference
  into a valid program it returns the number of nodes of the expanded expression
  modulo \<open>2 ^ 64\<close>.  Where the number of nodes itself is at most 9000, and the names
  of the catalog can be told apart in a rendered string (\<open>names_ok\<close>), \<open>as_string\<close>
  returns the full rendering, and the size derived from it (the count of
  operation-name tokens plus the count of input tokens) equals \<open>size_of\<close>.  Where
  the wrapped size exceeds 9000, \<open>as_string\<close> returns the placeholder instead.
\<close>

theorem rendered_size_agrees:
  assumes "valid_program p" "names_ok (prog_repo p)"
    and "ref_ok (prog_in_cnt p) (length (prog_ops p)) r"
  shows "size_of p r = Inr (node_count p r mod 2 ^ 64) \<and>
         (node_count p r \<le> 9000 \<longrightarrow>
            (\<exists>s. as_string p r = Some (Inr s) \<and>
                 size_of p r = Inr (derived_size (prog_repo p) s))) \<and>
         (9000 < node_count p r mod 2 ^ 64 \<longrightarrow>
            as_string p r =
              Some (Inr (''expr('' @ show_nat (node_count p r mod 2 ^ 64) @ '' nodes)'')))"
proof -
  have sz: "size_of p r = Inr (node_count p r mod 2 ^ 64)"
    using assms(1,3) by (rule size_of_mod)
  have full: "\<exists>s. as_string p r = Some (Inr s) \<and>
                  size_of p r = Inr (derived_size (prog_repo p) s)"
    if small: "node_count p r \<le> 9000"
  proof -
    from small have "node_count p r mod 2 ^ 64 = node_count p r" by simp
    with sz rendered_size[OF assms small] show ?thesis by auto
  qed
  have cut: "as_string p r =
        Some (Inr (''expr('' @ show_nat (node_count p r mod 2 ^ 64) @ '' nodes)''))"
    if "9000 < node_count p r mod 2 ^ 64"
    using ref_ok_assert_valid[OF assms(3)] sz that by (rule as_string_placeholder)
  from sz full cut show ?thesis by blast
qed

theorem rendered_size_agrees_witness:
  "valid_program example_program \<and> names_ok (prog_repo example_program) \<and>
   ref_ok (prog_in_cnt example_program) (length (prog_ops example_program)) (Ref 2) \<and>
   node_count example_program (Ref 2) \<le> 9000 \<and>
   size_of example_program (Ref 2) = Inr 7 \<and>
   as_string example_program (Ref 2) = Some (Inr ''mul(sub(i2,i0),add(i2,i0))'') \<and>
   derived_size (prog_repo example_program) ''mul(sub(i2,i0),add(i2,i0))'' = 7 \<and>
   ref_ok (prog_in_cnt doubling_program) (length (prog_ops doubling_program)) (Ref 62) \<and>
   9000 < node_count doubling_program (Ref 62) mod 2 ^ 64 \<and>
   as_string doubling_program (Ref 62) = Some (Inr ''expr(18446744073709551615 nodes)'')"
proof -
  have p: "prog_ops example_program = slot0_ops" "prog_repo example_program = example_repo"
    "prog_in_cnt example_program = 3"
    by (simp_all add: example_program_def Program_new_def)
  have nm: "names_ok (prog_repo example_program)"
    by (simp add: p example_names_ok)
  have r: "ref_ok (prog_in_cnt example_program) (length (prog_ops example_program)) (Ref 2)"
    by (simp add: p ref_ok_def slot0_ops_def)
  have n: "node_count example_program (Ref 2) \<le> 9000"
    by (simp add: node_count_def p slot0_ops_def node_count_get_def)
  have sz: "size_of example_program (Ref 2) = Inr 7"
    using p(1) by (rule slot0_sizes)
  have s: "as_string example_program (Ref 2) = Some (Inr ''mul(sub(i2,i0),add(i2,i0))'')"
    by (rule as_string_slot0) (simp_all add: p example_repo_def)
  from rendered_size_agrees[OF example_program_valid nm r] n s sz
  have d: "derived_size (prog_repo example_program) ''mul(sub(i2,i0),add(i2,i0))'' = 7"
    by auto
  have nm2: "names_ok (prog_repo doubling_program)"
    by (simp add: doubling_program_def Program_new_def example_names_ok)
  from rendered_size_agrees[OF doubling_valid nm2 doubling_refs(1)] doubling_placeholder
  have "as_string doubling_program (Ref 62) =
      Some (Inr (''expr('' @ show_nat (node_count doubling_program (Ref 62) mod 2 ^ 64) @
                 '' nodes)''))"
    by blast
  then have big: "as_string doubling_program (Ref 62) =
      Some (Inr ''expr(18446744073709551615 nodes)'')"
    by (simp add: doubling_node_counts show_nat_max)
  from example_program_valid nm r n sz s d doubling_refs(1) doubling_placeholder big
  show ?thesis by blast
qed

text \<open>
  In \<open>doubling_program\<close> operation 62 has \<open>2 ^ 64 - 1\<close> nodes and operation 63 has
  \<open>2 ^ 64 + 1\<close>, which \<open>size_of\<close> reports as 1.  The rendering of operation 63 is not
  cut off, its left operand is rendered as the placeholder, and the size derived
  from the string is 2.  In \<open>alias_program\<close> the operation is named \<open>i0\<close>: every
  token of the rendering is both an operation name and an input token, and the
  size derived from the string is 6 where \<open>size_of\<close> is 3.
\<close>

theorem rendered_size_counterexample:
  "valid_program doubling_program \<and> names_ok (prog_repo doubling_program) \<and>
   ref_ok (prog_in_cnt doubling_program) (length (prog_ops doubling_program)) (Ref 63) \<and>
   size_of doubling_program (Ref 63) = Inr 1 \<and>
   as_string doubling_program (Ref 63) =
     Some (Inr ''add(expr(18446744073709551615 nodes),i0)'') \<and>
   derived_size (prog_repo doubling_program) ''add(expr(18446744073709551615 nodes),i0)'' = 2 \<and>
   valid_program alias_program \<and>
   ref_ok (prog_in_cnt alias_program) (length (prog_ops alias_program)) (Ref 0) \<and>
   size_of alias_program (Ref 0) = Inr 3 \<and>
   as_string alias_program (Ref 0) = Some (Inr ''i0(i0,i0)'') \<and>
   derived_size (prog_repo alias_program) ''i0(i0,i0)'' = 6"
proof -
  have "names_ok (prog_repo doubling_program)"
    by (simp add: doubling_program_def Program_new_def example_names_ok)
  moreover have "ref_ok (prog_in_cnt alias_program) (length (prog_ops alias_program)) (Ref 0)"
    by (simp add: ref_ok_def alias_program_def)
  ultimately show ?thesis
    using doubling_valid doubling_refs(2) doubling_sizes(2) doubling_string doubling_derived
      alias_valid alias_size alias_string alias_derived
    by blast
qed

end
